theory Spec2Isabelle
  imports Complex_Main "HOL-Library.Sublist"
begin

section \<open>Strings and the platform's URL class\<close>

text \<open>
  A JavaScript string is modelled as a \<^typ>\<open>string\<close>: the list of its code units, for
  code units below 256. \<open>length\<close> is the string's \<open>.length\<close>, \<open>prefix\<close> is
  \<open>startsWith\<close> and \<open>suffix\<close> is \<open>endsWith\<close>.

  The class \<open>URL\<close> belongs to the platform, not to the repository. The crawler is
  therefore modelled over an arbitrary implementation of the six operations it uses; the
  type \<open>'u\<close> is the type of URL objects. A constructor that throws returns \<open>None\<close>.
\<close>

record 'u url_api =
  URL_new :: "string \<Rightarrow> 'u option"               \<comment> \<open>\<open>new URL(s)\<close>\<close>
  URL_new_rel :: "string \<Rightarrow> string \<Rightarrow> 'u option"  \<comment> \<open>\<open>new URL(s, base)\<close>\<close>
  URL_href :: "'u \<Rightarrow> string"                      \<comment> \<open>\<open>u.href\<close>\<close>
  URL_hostname :: "'u \<Rightarrow> string"                  \<comment> \<open>\<open>u.hostname\<close>\<close>
  URL_protocol :: "'u \<Rightarrow> string"                  \<comment> \<open>\<open>u.protocol\<close>\<close>
  URL_clear_hash :: "'u \<Rightarrow> 'u"                    \<comment> \<open>\<open>u.hash = ''\<close>\<close>

text \<open>\<open>s.replace(/\/$/, '')\<close>: one slash is removed, and only at the very end.\<close>

definition strip_trailing_slash :: "string \<Rightarrow> string" where
  "strip_trailing_slash s = (if s \<noteq> [] \<and> last s = CHR ''/'' then butlast s else s)"

text \<open>
  \<open>normalizeUrl\<close> of the scan route that takes \<open>excludeUrls\<close>; the other scan route
  and \<open>extractLinks\<close> write the same three lines inline.
\<close>

definition normalizeUrl :: "'u url_api \<Rightarrow> string \<Rightarrow> string option" where
  "normalizeUrl A s =
     (case URL_new A s of
        None \<Rightarrow> None
      | Some urlObj \<Rightarrow> Some (strip_trailing_slash (URL_href A (URL_clear_hash A urlObj))))"

text \<open>\<open>u.startsWith('http') ? u : `https://${u}`\<close>\<close>

definition with_scheme :: "string \<Rightarrow> string" where
  "with_scheme u = (if prefix ''http'' u then u else ''https://'' @ u)"

text \<open>\<open>normalizeUrlForCompare\<close> of the scanner component: the input itself on a throw.\<close>

definition normalizeUrlForCompare :: "'u url_api \<Rightarrow> string \<Rightarrow> string" where
  "normalizeUrlForCompare A u =
     (case normalizeUrl A (with_scheme u) of None \<Rightarrow> u | Some n \<Rightarrow> n)"

section \<open>JSON values\<close>

text \<open>
  The values that \<open>JSON.parse\<close> produces, and that a request body holds. The members
  of an object are a list of pairs, and \<open>map_of\<close> reads a member; a member that is
  missing reads as \<open>undefined\<close>, here \<open>None\<close>. \<open>truthy\<close> is the test that \<open>if\<close>,
  \<open>!\<close> and \<open>||\<close> make.
\<close>

datatype json = JNull | JBool bool | JNum rat | JStr string | JArr "json list" | JObj "(string \<times> json) list"

fun truthy :: "json option \<Rightarrow> bool" where
  "truthy None = False"
| "truthy (Some JNull) = False"
| "truthy (Some (JBool b)) = b"
| "truthy (Some (JNum n)) = (n \<noteq> 0)"
| "truthy (Some (JStr s)) = (s \<noteq> [])"
| "truthy (Some (JArr xs)) = True"
| "truthy (Some (JObj ms)) = True"

section \<open>Numbers\<close>

text \<open>
  A JavaScript number is a double: a finite value, one of the two infinities, or
  \<open>NaN\<close>. Every finite double is a rational number; the model has all rationals.
  \<open>lt a b\<close> is the comparison \<open>a < b\<close>, and \<open>a > b\<close> is \<open>lt b a\<close>; a comparison with
  \<open>NaN\<close> is false. \<open>nat_number k\<close> is the number of a count \<open>k\<close>, such as the length
  of an array.
\<close>

datatype number = Finite rat | Infinity | Minus_Infinity | NaN

fun lt :: "number \<Rightarrow> number \<Rightarrow> bool" where
  "lt (Finite a) (Finite b) = (a < b)"
| "lt (Finite a) Infinity = True"
| "lt Minus_Infinity (Finite b) = True"
| "lt Minus_Infinity Infinity = True"
| "lt a b = False"

definition nat_number :: "nat \<Rightarrow> number" where
  "nat_number k = Finite (of_nat k)"

section \<open>The fetcher of the scan route\<close>

text \<open>
  What the network answers to one \<open>axios.get\<close>: the final response (after the redirects
  axios follows), or no response at all (DNS failure, refused connection, timeout, too
  many redirects, an address that cannot be requested).

  \<open>response.data\<close> is the body as axios hands it over: a string, or, when the body is
  JSON text, the value that axios has parsed from it (a number, a boolean, \<open>null\<close>, an
  array or an object; a JSON string is parsed to a string, and the empty body is the empty
  string). Of a value that is no string the program observes three things, each computed
  by the platform, and the model keeps such a value as these three: whether it is truthy,
  the string that a regular expression reads it as, and the text \<open>JSON.stringify(v)\<close>.
  The platform converts the value to that string as \<open>String(v)\<close> does, and the
  conversion throws on an object with a member \<open>toString\<close> and on an array that holds
  one: the second component is \<open>None\<close> then. So \<open>Value False (Some ''0'') ''0''\<close> is the number 0 and
  \<open>Value True (Some ''[object Object]'') ''{}''\<close> is the empty object.
\<close>

datatype response_data = Text string | Value bool "string option" string

datatype http_outcome = Response (status: nat) (data: response_data) | No_response

fun truthy_data :: "response_data \<Rightarrow> bool" where
  "truthy_data (Text s) = (s \<noteq> [])"
| "truthy_data (Value b str js) = b"

fun String_of :: "response_data \<Rightarrow> string option" where
  "String_of (Text s) = Some s"
| "String_of (Value b str js) = str"

definition js_null :: response_data where
  "js_null = Value False (Some ''null'') ''null''"

text \<open>
  \<open>await axios.get(url, config)\<close>: it throws when there is no response and when
  \<open>validateStatus\<close> refuses the status, here \<open>None\<close>; otherwise it gives the response.
  The default \<open>validateStatus\<close> accepts exactly the statuses 200 to 299.
\<close>

definition axios_get :: "(nat \<Rightarrow> bool) \<Rightarrow> http_outcome \<Rightarrow> (nat \<times> response_data) option" where
  "axios_get validate out =
     (case out of
        No_response \<Rightarrow> None
      | Response st d \<Rightarrow> if validate st then Some (st, d) else None)"

definition default_validateStatus :: "nat \<Rightarrow> bool" where
  "default_validateStatus st = (200 \<le> st \<and> st < 300)"

text \<open>
  \<open>fetchPage\<close>: \<open>response.data\<close>, whatever value it is, and \<open>null\<close> from the
  \<open>catch\<close> clause.
\<close>

definition fetchPage :: "http_outcome \<Rightarrow> response_data" where
  "fetchPage out =
     (case axios_get default_validateStatus out of
        None \<Rightarrow> js_null
      | Some (st, d) \<Rightarrow> d)"

section \<open>Link extraction\<close>

text \<open>
  \<open>/href=["']([^"']+)["']/gi\<close> at the head of a string: \<open>href=\<close> in any case, a quote
  of either kind, one or more characters that are no quote, and a quote of either kind.
  The result is the captured group and the number of characters after the first one that
  the match covers.
\<close>

definition is_quote :: "char \<Rightarrow> bool" where
  "is_quote c = (c = CHR 0x22 \<or> c = CHR 0x27)"

definition upper_chars :: string where "upper_chars = ''ABCDEFGHIJKLMNOPQRSTUVWXYZ''"
definition lower_chars :: string where "lower_chars = ''abcdefghijklmnopqrstuvwxyz''"

definition lower_ascii :: "char \<Rightarrow> char" where
  "lower_ascii c = (case map_of (zip upper_chars lower_chars) c of Some l \<Rightarrow> l | None \<Rightarrow> c)"

text \<open>
  A literal of a regular expression with the flag \<open>i\<close>, matched at the head of a
  string. The literals of this program are ASCII, and a code unit below 256 matches an
  ASCII letter only when it is that letter in one of its two cases.
\<close>

definition ci_prefix :: "string \<Rightarrow> string \<Rightarrow> bool" where
  "ci_prefix p s = (length p \<le> length s \<and> map lower_ascii (take (length p) s) = map lower_ascii p)"

definition href_at :: "string \<Rightarrow> (string \<times> nat) option" where
  "href_at s =
     (if ci_prefix ''href='' s then
        (case drop 5 s of
           [] \<Rightarrow> None
         | q # r \<Rightarrow>
             let body = takeWhile (\<lambda>c. \<not> is_quote c) r in
             if is_quote q \<and> body \<noteq> [] \<and> length body < length r
             then Some (body, 5 + length body + 1) else None)
      else None)"

fun href_targets :: "string \<Rightarrow> string list" where
  "href_targets [] = []"
| "href_targets (c # cs) =
     (case href_at (c # cs) of
        Some (body, k) \<Rightarrow> body # href_targets (drop k cs)
      | None \<Rightarrow> href_targets cs)"

datatype crawl_error = Invalid_URL string | Type_error

text \<open>
  One round of the \<open>while\<close> loop of \<open>extractLinks\<close>, for the target \<open>link\<close>: the
  list \<open>links\<close> so far, and the list after the round. \<open>baseUrlObj\<close> is
  \<open>new URL(baseUrl)\<close>.
\<close>

definition add_link :: "'u url_api \<Rightarrow> 'u \<Rightarrow> string \<Rightarrow> string list \<Rightarrow> string \<Rightarrow> string list" where
  "add_link A baseUrlObj baseUrl links link =
     (if prefix ''javascript:'' link \<or> prefix ''mailto:'' link \<or> prefix ''tel:'' link \<or> prefix ''#'' link
      then links
      else
        (case (if prefix ''/'' link
               then Some (URL_protocol A baseUrlObj @ ''//'' @ URL_hostname A baseUrlObj @ link)
               else if \<not> prefix ''http'' link
               then map_option (URL_href A) (URL_new_rel A link baseUrl)
               else Some link) of
           None \<Rightarrow> links
         | Some absolute \<Rightarrow>
             (case URL_new A absolute of
                None \<Rightarrow> links
              | Some linkUrl \<Rightarrow>
                  let baseDomain = URL_hostname A baseUrlObj in
                  if URL_hostname A linkUrl = baseDomain \<or> suffix (''.'' @ baseDomain) (URL_hostname A linkUrl)
                  then
                    let normalizedUrl = strip_trailing_slash (URL_href A (URL_clear_hash A linkUrl)) in
                    if normalizedUrl \<in> set links then links else links @ [normalizedUrl]
                  else links)))"

text \<open>
  \<open>extractLinks\<close>. \<open>new URL(baseUrl)\<close> stands outside the \<open>try\<close>: when it throws,
  \<open>extractLinks\<close> throws. The argument \<open>html\<close> is what \<open>fetchPage\<close> returned; it is
  read by \<open>hrefRegex.exec(html)\<close> only, which converts it to a string, outside the
  \<open>try\<close> as well. The parameters \<open>currentDepth\<close> and \<open>maxDepth\<close> are not read by
  the source.
\<close>

definition extractLinks :: "'u url_api \<Rightarrow> response_data \<Rightarrow> string \<Rightarrow> nat \<Rightarrow> number \<Rightarrow> crawl_error + string list" where
  "extractLinks A html baseUrl currentDepth maxDepth =
     (case URL_new A baseUrl of
        None \<Rightarrow> Inl (Invalid_URL baseUrl)
      | Some baseUrlObj \<Rightarrow>
          (case String_of html of
             None \<Rightarrow> Inl Type_error
           | Some text \<Rightarrow> Inr (foldl (add_link A baseUrlObj baseUrl) [] (href_targets text))))"

section \<open>The crawl of \<open>src/app/api/website/scan/route.ts\<close>\<close>

record URLData =
  url :: string
  depth :: nat

text \<open>
  The requests of a crawl are an effect; the model keeps them in a trace. \<open>Fetched u\<close>
  is a call \<open>fetchPage(u)\<close>, \<open>Expanded u\<close> a call \<open>extractLinks(html, u, ...)\<close>, the
  only place where a page contributes links to the queue.
\<close>

datatype crawl_event = Fetched string | Expanded string

record crawl_state =
  queue :: "URLData list"
  visited :: "string set"
  urls :: "URLData list"
  trace :: "crawl_event list"

datatype crawl_result = Returned "URLData list" | Threw crawl_error

datatype crawl_step_result = Next crawl_state | Stop crawl_result "crawl_event list"

text \<open>
  One test of the loop condition and, when it holds, one round of the \<open>while\<close> loop.
  \<open>net u\<close> is what the network answers when \<open>u\<close> is requested: a crawl requests a URL
  only right after adding it to \<open>visited\<close>, and never a visited one, so within one crawl
  the answers are a function of the URL. \<open>maxUrls\<close> and \<open>maxDepth\<close> are numbers: the
  loop only compares them with \<open>urls.length\<close> and with \<open>depth\<close>.
\<close>

definition crawl_step :: "'u url_api \<Rightarrow> (string \<Rightarrow> http_outcome) \<Rightarrow> number \<Rightarrow> number \<Rightarrow> crawl_state \<Rightarrow> crawl_step_result" where
  "crawl_step A net maxUrls maxDepth s =
     (case queue s of
        [] \<Rightarrow> Stop (Returned (urls s)) (trace s)
      | q # rest \<Rightarrow>
          if \<not> lt (nat_number (length (urls s))) maxUrls then Stop (Returned (urls s)) (trace s)
          else
            (case normalizeUrl A (url q) of
               None \<Rightarrow> Next (s\<lparr>queue := rest\<rparr>)
             | Some normalizedUrl \<Rightarrow>
                 if normalizedUrl \<in> visited s \<or> lt maxDepth (nat_number (depth q))
                 then Next (s\<lparr>queue := rest\<rparr>)
                 else
                   let s1 = s\<lparr>queue := rest,
                              visited := insert normalizedUrl (visited s),
                              urls := urls s @ [\<lparr>url = normalizedUrl, depth = depth q\<rparr>]\<rparr>
                   in
                   if lt (nat_number (depth q)) maxDepth \<and> lt (nat_number (length (urls s1))) maxUrls then
                     (let html = fetchPage (net normalizedUrl) in
                      if \<not> truthy_data html then Next (s1\<lparr>trace := trace s1 @ [Fetched normalizedUrl]\<rparr>)
                      else
                        (case extractLinks A html normalizedUrl (depth q) maxDepth of
                           Inl e \<Rightarrow> Stop (Threw e) (trace s1 @ [Fetched normalizedUrl, Expanded normalizedUrl])
                         | Inr links \<Rightarrow>
                             Next (s1\<lparr>queue := queue s1 @
                                        map (\<lambda>link. \<lparr>url = link, depth = depth q + 1\<rparr>)
                                          (filter (\<lambda>link. link \<notin> visited s1 \<and> lt (nat_number (length (urls s1))) maxUrls) links),
                                      trace := trace s1 @ [Fetched normalizedUrl, Expanded normalizedUrl]\<rparr>)))
                   else Next s1))"

text \<open>
  The loop. With \<open>maxUrls = Infinity\<close> nothing bounds the number of rounds, and on a
  site that never runs out of new links the crawl does not return: the result is
  \<open>None\<close> then.
\<close>

partial_function (option) crawl_loop :: "'u url_api \<Rightarrow> (string \<Rightarrow> http_outcome) \<Rightarrow> number \<Rightarrow> number \<Rightarrow> crawl_state \<Rightarrow> (crawl_result \<times> crawl_event list) option" where
  "crawl_loop A net maxUrls maxDepth s =
     (case crawl_step A net maxUrls maxDepth s of
        Stop r t \<Rightarrow> Some (r, t)
      | Next s' \<Rightarrow> crawl_loop A net maxUrls maxDepth s')"

declare crawl_loop.simps [code]

definition crawlWebsite :: "'u url_api \<Rightarrow> (string \<Rightarrow> http_outcome) \<Rightarrow> string \<Rightarrow> number \<Rightarrow> number \<Rightarrow> (crawl_result \<times> crawl_event list) option" where
  "crawlWebsite A net startUrl maxUrls maxDepth =
     crawl_loop A net maxUrls maxDepth
       \<lparr>queue = [\<lparr>url = startUrl, depth = 0\<rparr>], visited = {}, urls = [], trace = []\<rparr>"

text \<open>
  The handler \<open>POST\<close> of this route. \<open>request\<close> is the body of the request, or
  \<open>None\<close> when \<open>request.json()\<close> throws or gives \<open>null\<close>, which cannot be
  destructured. A member of the body is any JSON value, or missing. A missing
  \<open>maxUrls\<close> is 200 and a missing \<open>maxDepth\<close> is 5; one that is present is read by
  comparisons with numbers only, here and in the crawl, and these convert a value that is
  no number to a number first (a text that is no numeral to \<open>NaN\<close>, \<open>null\<close> to 0).
  \<open>body_maxUrls\<close> and \<open>body_maxDepth\<close> hold the number that the comparisons read;
  \<open>Unreadable\<close> is a value on which the conversion throws, such as an object with a
  member \<open>toString\<close>; the comparison then throws outside every \<open>try\<close> but the
  outermost. A \<open>url\<close> that is no string has no \<open>startsWith\<close>, and the call
  throws inside the \<open>try\<close> that answers with status 400. This handler does not read
  \<open>excludeUrls\<close>. Whatever is thrown elsewhere is answered with status 500 and the
  message of the error, which is left out. A successful answer also repeats the body's
  \<open>keywords\<close> and \<open>workStreamAreas\<close>, which the crawl never reads; they are left out.
\<close>

datatype body_number = Reads number | Unreadable

record scan_body =
  body_url :: "json option"
  body_maxUrls :: "body_number option"
  body_maxDepth :: "body_number option"
  body_excludeUrls :: "json option"

datatype scan_response =
    Scan_success "URLData list" nat
  | Bad_request string
  | Server_error

definition scan_checks :: "'u url_api \<Rightarrow> scan_body \<Rightarrow> scan_response + (string \<times> number \<times> number)" where
  "scan_checks A body =
     (let maxUrls = (case body_maxUrls body of None \<Rightarrow> Reads (Finite 200) | Some n \<Rightarrow> n);
          maxDepth = (case body_maxDepth body of None \<Rightarrow> Reads (Finite 5) | Some n \<Rightarrow> n)
      in
      if \<not> truthy (body_url body) then Inl (Bad_request ''URL is required'')
      else
        (case body_url body of
           Some (JStr u) \<Rightarrow>
             let validatedUrl = with_scheme u in
             if URL_new A validatedUrl = None then Inl (Bad_request ''Invalid URL format'')
             else
               (case maxUrls of
                  Unreadable \<Rightarrow> Inl Server_error
                | Reads maxUrls \<Rightarrow>
                    if lt (Finite 300) maxUrls then Inl (Bad_request ''Maximum 300 URLs allowed'')
                    else
                      (case maxDepth of
                         Unreadable \<Rightarrow> Inl Server_error
                       | Reads maxDepth \<Rightarrow>
                           if lt (Finite 5) maxDepth then Inl (Bad_request ''Maximum depth is 5 layers'')
                           else Inr (validatedUrl, maxUrls, maxDepth)))
         | _ \<Rightarrow> Inl (Bad_request ''Invalid URL format'')))"

text \<open>The answer of the handler, if the crawl returns.\<close>

definition scan_POST :: "'u url_api \<Rightarrow> (string \<Rightarrow> http_outcome) \<Rightarrow> scan_body option \<Rightarrow> (scan_response \<times> crawl_event list) option" where
  "scan_POST A net request =
     (case request of
        None \<Rightarrow> Some (Server_error, [])
      | Some body \<Rightarrow>
          (case scan_checks A body of
             Inl answer \<Rightarrow> Some (answer, [])
           | Inr (validatedUrl, maxUrls, maxDepth) \<Rightarrow>
               (case crawlWebsite A net validatedUrl maxUrls maxDepth of
                  None \<Rightarrow> None
                | Some (Returned us, t) \<Rightarrow> Some (Scan_success us (length us), t)
                | Some (Threw e, t) \<Rightarrow> Some (Server_error, t))))"

section \<open>The crawl of the scan route that takes \<open>excludeUrls\<close>\<close>

text \<open>
  The repository holds a second scan route, the one the scanner component's
  \<open>excludeUrls\<close> is written for. Its \<open>fetchPage\<close> and \<open>extractLinks\<close> are the ones
  above; its crawl has an exclude set, normalises the start URL before queueing it, and
  normalises every extracted link once more before queueing it. A string is falsy when
  it is empty.
\<close>

definition exclude_set :: "'u url_api \<Rightarrow> string list \<Rightarrow> string set" where
  "exclude_set A excludeUrls =
     foldl (\<lambda>excludeSet u.
              case normalizeUrl A (with_scheme u) of
                None \<Rightarrow> excludeSet
              | Some n \<Rightarrow> if n \<noteq> [] then insert n excludeSet else excludeSet)
           {} excludeUrls"

definition crawl_step_excl :: "'u url_api \<Rightarrow> (string \<Rightarrow> http_outcome) \<Rightarrow> number \<Rightarrow> number \<Rightarrow> string set \<Rightarrow> crawl_state \<Rightarrow> crawl_step_result" where
  "crawl_step_excl A net maxUrls maxDepth excludeSet s =
     (case queue s of
        [] \<Rightarrow> Stop (Returned (urls s)) (trace s)
      | q # rest \<Rightarrow>
          if \<not> lt (nat_number (length (urls s))) maxUrls then Stop (Returned (urls s)) (trace s)
          else
            (case normalizeUrl A (url q) of
               None \<Rightarrow> Next (s\<lparr>queue := rest\<rparr>)
             | Some normalizedUrl \<Rightarrow>
                 if normalizedUrl = [] then Next (s\<lparr>queue := rest\<rparr>)
                 else if normalizedUrl \<in> visited s \<or> lt maxDepth (nat_number (depth q)) \<or> normalizedUrl \<in> excludeSet
                 then Next (s\<lparr>queue := rest\<rparr>)
                 else
                   let s1 = s\<lparr>queue := rest,
                              visited := insert normalizedUrl (visited s),
                              urls := urls s @ [\<lparr>url = normalizedUrl, depth = depth q\<rparr>]\<rparr>
                   in
                   if lt (nat_number (depth q)) maxDepth \<and> lt (nat_number (length (urls s1))) maxUrls then
                     (let html = fetchPage (net normalizedUrl) in
                      if \<not> truthy_data html then Next (s1\<lparr>trace := trace s1 @ [Fetched normalizedUrl]\<rparr>)
                      else
                        (case extractLinks A html normalizedUrl (depth q) maxDepth of
                           Inl e \<Rightarrow> Stop (Threw e) (trace s1 @ [Fetched normalizedUrl, Expanded normalizedUrl])
                         | Inr links \<Rightarrow>
                             Next (s1\<lparr>queue := queue s1 @
                                        List.map_filter
                                          (\<lambda>link. case normalizeUrl A link of
                                                     None \<Rightarrow> None
                                                   | Some norm1 \<Rightarrow>
                                                       if norm1 \<noteq> [] \<and> norm1 \<notin> visited s1 \<and> norm1 \<notin> excludeSet
                                                          \<and> lt (nat_number (length (urls s1))) maxUrls
                                                       then Some \<lparr>url = norm1, depth = depth q + 1\<rparr>
                                                       else None)
                                          links,
                                      trace := trace s1 @ [Fetched normalizedUrl, Expanded normalizedUrl]\<rparr>)))
                   else Next s1))"

partial_function (option) crawl_loop_excl :: "'u url_api \<Rightarrow> (string \<Rightarrow> http_outcome) \<Rightarrow> number \<Rightarrow> number \<Rightarrow> string set \<Rightarrow> crawl_state \<Rightarrow> (crawl_result \<times> crawl_event list) option" where
  "crawl_loop_excl A net maxUrls maxDepth excludeSet s =
     (case crawl_step_excl A net maxUrls maxDepth excludeSet s of
        Stop r t \<Rightarrow> Some (r, t)
      | Next s' \<Rightarrow> crawl_loop_excl A net maxUrls maxDepth excludeSet s')"

declare crawl_loop_excl.simps [code]

definition crawlWebsite_excl :: "'u url_api \<Rightarrow> (string \<Rightarrow> http_outcome) \<Rightarrow> string \<Rightarrow> number \<Rightarrow> number \<Rightarrow> string list \<Rightarrow> (crawl_result \<times> crawl_event list) option" where
  "crawlWebsite_excl A net startUrl maxUrls maxDepth excludeUrls =
     (case normalizeUrl A (with_scheme startUrl) of
        None \<Rightarrow> Some (Returned [], [])
      | Some startNormalized \<Rightarrow>
          if startNormalized = [] then Some (Returned [], [])
          else crawl_loop_excl A net maxUrls maxDepth (exclude_set A excludeUrls)
                 \<lparr>queue = [\<lparr>url = startNormalized, depth = 0\<rparr>], visited = {}, urls = [], trace = []\<rparr>)"

text \<open>
  The handler of this route takes the \<open>excludeUrls\<close> of the body when it is an array,
  and the empty list otherwise. \<open>crawlWebsite\<close> is written for a list of strings: on an
  entry that is no string, \<open>u.startsWith\<close> throws while the exclude set is built,
  before anything is requested.
\<close>

fun strings_of :: "json list \<Rightarrow> string list option" where
  "strings_of [] = Some []"
| "strings_of (JStr s # xs) = map_option ((#) s) (strings_of xs)"
| "strings_of (x # xs) = None"

definition scan_POST_excl :: "'u url_api \<Rightarrow> (string \<Rightarrow> http_outcome) \<Rightarrow> scan_body option \<Rightarrow> (scan_response \<times> crawl_event list) option" where
  "scan_POST_excl A net request =
     (case request of
        None \<Rightarrow> Some (Server_error, [])
      | Some body \<Rightarrow>
          (case scan_checks A body of
             Inl answer \<Rightarrow> Some (answer, [])
           | Inr (validatedUrl, maxUrls, maxDepth) \<Rightarrow>
               let excludeList = (case body_excludeUrls body of Some (JArr xs) \<Rightarrow> xs | _ \<Rightarrow> []) in
               (case strings_of excludeList of
                  None \<Rightarrow> Some (Server_error, [])
                | Some excludeUrls \<Rightarrow>
                    (case crawlWebsite_excl A net validatedUrl maxUrls maxDepth excludeUrls of
                       None \<Rightarrow> None
                     | Some (Returned us, t) \<Rightarrow> Some (Scan_success us (length us), t)
                     | Some (Threw e, t) \<Rightarrow> Some (Server_error, t)))))"

section \<open>A model of the platform's URL class on plain web addresses\<close>

text \<open>
  For concrete runs and for the properties of canonical forms, the operations of the
  platform's class \<open>URL\<close> are modelled on the plain addresses
  \<open>http[s]://host[/path][?query][#fragment]\<close>: the scheme in lower case, a host of
  labels of lower-case letters and digits that each start with a letter, a path of
  letters, digits and \<open>/ - _ . ~\<close> with no segment that starts with a dot, and a query
  and a fragment of letters, digits and \<open>/ - _ . ~ = &\<close>. On these the platform's
  parser changes nothing but an empty path, which becomes \<open>/\<close>; it keeps empty path
  segments. On everything else the model's constructor returns \<open>None\<close>, which stands
  for a throw; the platform accepts more (ports, credentials, other schemes, characters
  it percent-encodes, relative references). Every property proved over an arbitrary
  \<^typ>\<open>'u url_api\<close> holds for the platform's own class.
\<close>

record URL =
  protocol :: string
  hostname :: string
  pathname :: string
  query :: "string option"
  fragment :: "string option"

definition digit_chars :: string where "digit_chars = ''0123456789''"

definition is_lower :: "char \<Rightarrow> bool" where "is_lower c = (c \<in> set lower_chars)"
definition is_upper :: "char \<Rightarrow> bool" where "is_upper c = (c \<in> set upper_chars)"
definition is_digit :: "char \<Rightarrow> bool" where "is_digit c = (c \<in> set digit_chars)"

definition path_char :: "char \<Rightarrow> bool" where
  "path_char c = (is_lower c \<or> is_upper c \<or> is_digit c \<or> c \<in> set ''/-_.~'')"

definition query_char :: "char \<Rightarrow> bool" where
  "query_char c = (path_char c \<or> c \<in> set ''=&'')"

fun labels_ok :: "string \<Rightarrow> bool" where
  "labels_ok [] = True"
| "labels_ok (c # cs) =
     (if c = CHR ''.'' then (case cs of [] \<Rightarrow> False | d # _ \<Rightarrow> is_lower d) \<and> labels_ok cs
      else (is_lower c \<or> is_digit c) \<and> labels_ok cs)"

definition plain_host :: "string \<Rightarrow> bool" where
  "plain_host h = labels_ok (CHR ''.'' # h)"

fun no_dot_segment :: "string \<Rightarrow> bool" where
  "no_dot_segment (a # b # cs) = (\<not> (a = CHR ''/'' \<and> b = CHR ''.'') \<and> no_dot_segment (b # cs))"
| "no_dot_segment cs = True"

definition plain_path :: "string \<Rightarrow> bool" where
  "plain_path p = (list_all path_char p \<and> no_dot_segment p)"

definition plain_opt :: "string option \<Rightarrow> bool" where
  "plain_opt x = (case x of None \<Rightarrow> True | Some q \<Rightarrow> list_all query_char q)"

definition scheme_rest :: "string \<Rightarrow> (string \<times> string) option" where
  "scheme_rest s =
     (if prefix ''https://'' s then Some (''https:'', drop 8 s)
      else if prefix ''http://'' s then Some (''http:'', drop 7 s)
      else None)"

text \<open>The part before the first \<open>c\<close>, and the part after it when there is one.\<close>

definition cut :: "char \<Rightarrow> string \<Rightarrow> string \<times> string option" where
  "cut c s =
     (takeWhile (\<lambda>x. x \<noteq> c) s,
      case dropWhile (\<lambda>x. x \<noteq> c) s of [] \<Rightarrow> None | _ # r \<Rightarrow> Some r)"

definition parse_url :: "string \<Rightarrow> URL option" where
  "parse_url s =
     (case scheme_rest s of
        None \<Rightarrow> None
      | Some (proto, rest) \<Rightarrow>
          (case cut CHR ''#'' rest of
             (before_hash, frag) \<Rightarrow>
               (case cut CHR ''?'' before_hash of
                  (before_query, qry) \<Rightarrow>
                    let host = takeWhile (\<lambda>c. c \<noteq> CHR ''/'') before_query;
                        path = dropWhile (\<lambda>c. c \<noteq> CHR ''/'') before_query
                    in
                    if plain_host host \<and> plain_path path \<and> plain_opt qry \<and> plain_opt frag
                    then Some \<lparr>protocol = proto, hostname = host,
                               pathname = (if path = [] then ''/'' else path),
                               query = qry, fragment = frag\<rparr>
                    else None)))"

definition href :: "URL \<Rightarrow> string" where
  "href u =
     protocol u @ ''//'' @ hostname u @ pathname u
       @ (case query u of None \<Rightarrow> [] | Some q \<Rightarrow> CHR ''?'' # q)
       @ (case fragment u of None \<Rightarrow> [] | Some f \<Rightarrow> CHR ''#'' # f)"

definition plain_urls :: "URL url_api" where
  "plain_urls =
     \<lparr>URL_new = parse_url,
      URL_new_rel = (\<lambda>s base. None),
      URL_href = href,
      URL_hostname = hostname,
      URL_protocol = protocol,
      URL_clear_hash = (\<lambda>u. u\<lparr>fragment := None\<rparr>)\<rparr>"

section \<open>The reference detector of \<open>src/app/api/website/analyze/route.ts\<close>\<close>

text \<open>
  The classes \<open>\s\<close> and \<open>\w\<close> and the assertion \<open>\b\<close> of the platform's regular
  expressions, for code units below 256. \<open>String.prototype.trim\<close> removes the same
  characters as \<open>\s\<close> matches.
\<close>

definition is_space :: "char \<Rightarrow> bool" where
  "is_space c = (c \<in> set [CHR 0x09, CHR 0x0A, CHR 0x0B, CHR 0x0C, CHR 0x0D, CHR 0x20, CHR 0xA0])"

definition is_word_char :: "char \<Rightarrow> bool" where
  "is_word_char c = (is_lower c \<or> is_upper c \<or> is_digit c \<or> c = CHR ''_'')"

definition word_at :: "string \<Rightarrow> nat \<Rightarrow> bool" where
  "word_at s i = (i < length s \<and> is_word_char (s ! i))"

definition boundary :: "string \<Rightarrow> nat \<Rightarrow> bool" where
  "boundary s i = (word_at s i \<noteq> (0 < i \<and> word_at s (i - 1)))"

text \<open>
  \<open>/\b(cougar\s*web|cougarweb)\b/gi\<close> at index \<open>i\<close>: the length of the match, if
  there is one. In the first alternative \<open>\s*\<close> first takes all the white space there
  is and then gives it back one character at a time.
\<close>

definition cougar_at :: "string \<Rightarrow> nat \<Rightarrow> nat option" where
  "cougar_at s i =
     (if \<not> boundary s i then None
      else
        (case (if ci_prefix ''cougar'' (drop i s)
               then find (\<lambda>k. ci_prefix ''web'' (drop (i + 6 + k) s) \<and> boundary s (i + 6 + k + 3))
                      (rev [0..<Suc (length (takeWhile is_space (drop (i + 6) s)))])
               else None) of
           Some k \<Rightarrow> Some (6 + k + 3)
         | None \<Rightarrow>
             if ci_prefix ''cougarweb'' (drop i s) \<and> boundary s (i + 9) then Some 9 else None))"

text \<open>\<open>/\bcolleague\b/gi\<close> at index \<open>i\<close>; a match has length 9.\<close>

definition colleague_at :: "string \<Rightarrow> nat \<Rightarrow> bool" where
  "colleague_at s i = (boundary s i \<and> ci_prefix ''colleague'' (drop i s) \<and> boundary s (i + 9))"

text \<open>
  \<open>regex.exec(s)\<close> of a global expression whose \<open>lastIndex\<close> is given: the index and
  the length of the first match that starts at \<open>lastIndex\<close> or later. The caller's loop
  sets \<open>lastIndex\<close> to the end of the match.
\<close>

definition cougar_exec :: "string \<Rightarrow> nat \<Rightarrow> (nat \<times> nat) option" where
  "cougar_exec s lastIndex =
     (case find (\<lambda>i. cougar_at s i \<noteq> None) [lastIndex..<length s] of
        None \<Rightarrow> None
      | Some i \<Rightarrow> (case cougar_at s i of None \<Rightarrow> None | Some n \<Rightarrow> Some (i, n)))"

definition colleague_exec :: "string \<Rightarrow> nat \<Rightarrow> (nat \<times> nat) option" where
  "colleague_exec s lastIndex =
     (case find (colleague_at s) [lastIndex..<length s] of
        None \<Rightarrow> None
      | Some i \<Rightarrow> Some (i, 9))"

text \<open>
  \<open>COLLEGUE_SYSTEM_WORDS.test(window)\<close>: the expression is not global, so the search
  starts at index 0 each time.
\<close>

definition system_words :: "string list" where
  "system_words = [''student'', ''system'', ''ERP'', ''SIS'', ''Banner'', ''registration'', ''HR'',
                   ''finance'', ''payroll'', ''portal'', ''information'']"

definition system_word_at :: "string \<Rightarrow> nat \<Rightarrow> bool" where
  "system_word_at s i =
     (boundary s i \<and> list_ex (\<lambda>w. ci_prefix w (drop i s) \<and> boundary s (i + length w)) system_words)"

definition COLLEGUE_SYSTEM_WORDS_test :: "string \<Rightarrow> bool" where
  "COLLEGUE_SYSTEM_WORDS_test window = list_ex (system_word_at window) [0..<length window]"

text \<open>\<open>s.slice(start, end)\<close> for \<open>0 \<le> start\<close> and \<open>end \<le> s.length\<close>.\<close>

definition slice :: "string \<Rightarrow> nat \<Rightarrow> nat \<Rightarrow> string" where
  "slice s start end = take (end - start) (drop start s)"

text \<open>\<open>s.replace(/\s+/g, ' ')\<close>: every maximal run of white space becomes one space.\<close>

function collapse_spaces :: "string \<Rightarrow> string" where
  "collapse_spaces [] = []"
| "collapse_spaces (c # cs) =
     (if is_space c then CHR '' '' # collapse_spaces (dropWhile is_space cs)
      else c # collapse_spaces cs)"
  by pat_completeness auto
termination
  by (relation "measure length") (auto simp: le_imp_less_Suc length_dropWhile_le)

definition trim :: "string \<Rightarrow> string" where
  "trim s = rev (dropWhile is_space (rev (dropWhile is_space s)))"

record found =
  snippet :: string
  offset :: nat

text \<open>The guarded \<open>results.push\<close> that both loops end with.\<close>

definition push_snippet :: "found list \<Rightarrow> string \<Rightarrow> nat \<Rightarrow> found list" where
  "push_snippet results snip idx =
     (if length snip > 20 \<and> \<not> list_ex (\<lambda>r. snippet r = snip) results
      then results @ [\<lparr>snippet = snip, offset = idx\<rparr>]
      else results)"

definition cougar_snippet :: "string \<Rightarrow> nat \<Rightarrow> string" where
  "cougar_snippet normalized idx =
     (let start = idx - 80;
          end = min (length normalized) (idx + 120)
      in trim (collapse_spaces (slice normalized start end)))"

definition colleague_window :: "string \<Rightarrow> nat \<Rightarrow> string" where
  "colleague_window normalized idx =
     (let windowStart = idx - 100;
          windowEnd = min (length normalized) (idx + 100)
      in slice normalized windowStart windowEnd)"

lemma cougar_at_positive: "cougar_at s i = Some n \<Longrightarrow> 9 \<le> n"
  by (auto simp: cougar_at_def split: if_splits option.splits)

lemma cougar_exec_bounds:
  assumes "cougar_exec s lastIndex = Some (idx, n)"
  shows "lastIndex \<le> idx \<and> idx < length s \<and> 9 \<le> n \<and> cougar_at s idx = Some n"
proof -
  from assms obtain i where f: "find (\<lambda>i. cougar_at s i \<noteq> None) [lastIndex..<length s] = Some i"
    and c: "cougar_at s i = Some n" and i: "i = idx"
    by (auto simp: cougar_exec_def split: option.splits)
  from f have "i \<in> set [lastIndex..<length s]" by (auto simp: find_Some_iff)
  with c i show ?thesis by (auto dest: cougar_at_positive)
qed

lemma colleague_exec_bounds:
  assumes "colleague_exec s lastIndex = Some (idx, n)"
  shows "lastIndex \<le> idx \<and> idx < length s \<and> n = 9 \<and> colleague_at s idx"
proof -
  from assms have f: "find (colleague_at s) [lastIndex..<length s] = Some idx" and n: "n = 9"
    by (auto simp: colleague_exec_def split: option.splits)
  from f have "idx \<in> set [lastIndex..<length s]" and "colleague_at s idx"
    by (auto simp: find_Some_iff)
  with n show ?thesis by auto
qed

text \<open>The first \<open>while\<close> loop of \<open>findLegacySnippets\<close>.\<close>

function cougar_loop :: "string \<Rightarrow> nat \<Rightarrow> found list \<Rightarrow> found list" where
  "cougar_loop normalized lastIndex results =
     (case cougar_exec normalized lastIndex of
        None \<Rightarrow> results
      | Some (idx, n) \<Rightarrow>
          cougar_loop normalized (idx + n)
            (push_snippet results (cougar_snippet normalized idx) idx))"
  by pat_completeness auto
termination
  by (relation "measure (\<lambda>(normalized, lastIndex, results). length normalized - lastIndex)")
     (auto dest!: cougar_exec_bounds)

text \<open>The second \<open>while\<close> loop.\<close>

function colleague_loop :: "string \<Rightarrow> nat \<Rightarrow> found list \<Rightarrow> found list" where
  "colleague_loop normalized lastIndex results =
     (case colleague_exec normalized lastIndex of
        None \<Rightarrow> results
      | Some (idx, n) \<Rightarrow>
          colleague_loop normalized (idx + n)
            (let window = colleague_window normalized idx in
             if COLLEGUE_SYSTEM_WORDS_test window
             then push_snippet results (trim (collapse_spaces window)) idx
             else results))"
  by pat_completeness auto
termination
  by (relation "measure (\<lambda>(normalized, lastIndex, results). length normalized - lastIndex)")
     (auto dest!: colleague_exec_bounds)

text \<open>\<open>findLegacySnippets\<close>; the source does not read its parameter \<open>html\<close>.\<close>

definition findLegacySnippets :: "string \<Rightarrow> string \<Rightarrow> found list" where
  "findLegacySnippets html text = colleague_loop text 0 (cougar_loop text 0 [])"

section \<open>The page fetcher of the analyze route\<close>

text \<open>
  \<open>html.replace(/<script[^>]*>[\s\S]*?<\/script>/gi, '')\<close> and the same for
  \<open>style\<close>. \<open>block_at tag s\<close> matches at the head of \<open>s\<close>: the opening tag up to the
  first \<open>>\<close>, then as little as possible up to the first closing tag. It returns the
  number of characters after the first one that the match covers.
\<close>

definition block_at :: "string \<Rightarrow> string \<Rightarrow> nat option" where
  "block_at tag s =
     (if ci_prefix (CHR ''<'' # tag) s then
        (case dropWhile (\<lambda>c. c \<noteq> CHR ''>'') (drop (Suc (length tag)) s) of
           [] \<Rightarrow> None
         | _ # body \<Rightarrow>
             (case find (\<lambda>k. ci_prefix (''</'' @ tag @ ''>'') (drop k body)) [0..<Suc (length body)] of
                None \<Rightarrow> None
              | Some k \<Rightarrow> Some (length s - length body + k + (length tag + 3) - 1)))
      else None)"

fun remove_blocks :: "string \<Rightarrow> string \<Rightarrow> string" where
  "remove_blocks tag [] = []"
| "remove_blocks tag (c # cs) =
     (case block_at tag (c # cs) of
        Some k \<Rightarrow> remove_blocks tag (drop k cs)
      | None \<Rightarrow> c # remove_blocks tag cs)"

text \<open>\<open>.replace(/<[^>]+>/g, ' ')\<close>\<close>

definition tag_at :: "string \<Rightarrow> nat option" where
  "tag_at s =
     (case s of
        [] \<Rightarrow> None
      | c # r \<Rightarrow>
          let inner = takeWhile (\<lambda>x. x \<noteq> CHR ''>'') r in
          if c = CHR ''<'' \<and> inner \<noteq> [] \<and> length inner < length r
          then Some (length inner + 1) else None)"

fun strip_tags :: "string \<Rightarrow> string" where
  "strip_tags [] = []"
| "strip_tags (c # cs) =
     (case tag_at (c # cs) of
        Some k \<Rightarrow> CHR '' '' # strip_tags (drop k cs)
      | None \<Rightarrow> c # strip_tags cs)"

text \<open>\<open>html.match(/<title[^>]*>([^<]+)<\/title>/i)\<close>: the group of the first match.\<close>

definition title_at :: "string \<Rightarrow> string option" where
  "title_at s =
     (if ci_prefix ''<title'' s then
        (case dropWhile (\<lambda>c. c \<noteq> CHR ''>'') (drop 6 s) of
           [] \<Rightarrow> None
         | _ # r \<Rightarrow>
             let t = takeWhile (\<lambda>c. c \<noteq> CHR ''<'') r in
             if t \<noteq> [] \<and> ci_prefix ''</title>'' (drop (length t) r) then Some t else None)
      else None)"

fun title_match :: "string \<Rightarrow> string option" where
  "title_match [] = None"
| "title_match (c # cs) =
     (case title_at (c # cs) of Some t \<Rightarrow> Some t | None \<Rightarrow> title_match cs)"

record page_content =
  page_html :: string
  page_text :: string
  page_title :: string

text \<open>
  \<open>typeof response.data === 'string' ? response.data : JSON.stringify(response.data)\<close>
\<close>

fun html_of :: "response_data \<Rightarrow> string" where
  "html_of (Text s) = s"
| "html_of (Value b str js) = js"

text \<open>
  \<open>fetchPageContent\<close>. The request is made with \<open>validateStatus: (status) => status < 500\<close>.
  \<open>response.data\<close> is tested for truthiness as axios hands it over: the empty body is
  falsy, and so is a body that axios has parsed to \<open>0\<close>, \<open>false\<close>, \<open>null\<close> or the
  empty string. Everything stands in one \<open>try\<close> whose \<open>catch\<close> returns \<open>null\<close>, here
  \<open>None\<close>; within it only \<open>axios.get\<close> throws.
\<close>

definition validateStatus :: "nat \<Rightarrow> bool" where
  "validateStatus st = (st < 500)"

definition fetchPageContent :: "http_outcome \<Rightarrow> page_content option" where
  "fetchPageContent out =
     (case axios_get validateStatus out of
        None \<Rightarrow> None
      | Some (st, d) \<Rightarrow>
          if \<not> truthy_data d then None
          else
            let html = html_of d in
            Some \<lparr>page_html = html,
                  page_text =
                    take 30000 (trim (collapse_spaces (strip_tags
                      (remove_blocks ''style'' (remove_blocks ''script'' html))))),
                  page_title = (case title_match html of Some t \<Rightarrow> trim t | None \<Rightarrow> [])\<rparr>)"

section \<open>The classifier of the analyze route\<close>

text \<open>
  \<open>chatCompletion\<close> of \<open>src/lib/openai.ts\<close>, as far as its caller can tell: it throws
  when the API key is missing or blank and when the client's request rejects, and it
  returns the content of the first choice, or the empty string when there is none. What
  is thrown is an \<open>Error\<close> with its message, or some other value.
\<close>

datatype thrown = Error_object string | Other_value

datatype openai_outcome = Api_rejected thrown | Api_content "string option"

definition chatCompletion :: "string option \<Rightarrow> openai_outcome \<Rightarrow> thrown + string" where
  "chatCompletion rawKey out =
     (let apiKey = (case rawKey of None \<Rightarrow> [] | Some k \<Rightarrow> trim k) in
      if apiKey = []
      then Inl (Error_object ''OpenAI API key must be set in .env.local (OPENAI_API_KEY=sk-proj-...)'')
      else
        (case out of
           Api_rejected e \<Rightarrow> Inl e
         | Api_content c \<Rightarrow> Inr (case c of None \<Rightarrow> [] | Some content \<Rightarrow> content)))"

text \<open>
  \<open>response.match(/\{[\s\S]*\}/)\<close>: from the first opening brace to the last closing
  brace after it.
\<close>

definition json_match :: "string \<Rightarrow> string option" where
  "json_match response =
     (let from_brace = dropWhile (\<lambda>c. c \<noteq> CHR ''{'') response;
          to_brace = rev (dropWhile (\<lambda>c. c \<noteq> CHR ''}'') (rev from_brace))
      in if to_brace = [] then None else Some to_brace)"

text \<open>
  \<open>JSON.parse\<close> belongs to the platform: the classifier is modelled over an arbitrary
  function \<open>J\<close> that maps a text that starts with a brace to the message of the
  \<open>SyntaxError\<close> thrown, or to the members of the object parsed.
\<close>

text \<open>\<open>v || d\<close>\<close>

definition or_default :: "json option \<Rightarrow> json \<Rightarrow> json" where
  "or_default v d = (case v of None \<Rightarrow> d | Some x \<Rightarrow> if truthy (Some x) then x else d)"

record finding =
  html_context :: string
  primary_audience :: json
  task_category :: json
  reference_type :: json
  workday_feature :: json
  proposed_replacement :: json
  suggested_keywords :: json
  confidence :: string
  finding_notes :: "json option"

text \<open>
  \<open>snippet.replace(/\b(cougar\s*web|cougarweb|colleague)\b/gi, 'Workday')\<close>: the
  alternatives are tried in this order at every index.
\<close>

definition legacy_at :: "string \<Rightarrow> nat \<Rightarrow> nat option" where
  "legacy_at s i =
     (case cougar_at s i of
        Some n \<Rightarrow> Some n
      | None \<Rightarrow> if colleague_at s i then Some 9 else None)"

definition legacy_exec :: "string \<Rightarrow> nat \<Rightarrow> (nat \<times> nat) option" where
  "legacy_exec s lastIndex =
     (case find (\<lambda>i. legacy_at s i \<noteq> None) [lastIndex..<length s] of
        None \<Rightarrow> None
      | Some i \<Rightarrow> (case legacy_at s i of None \<Rightarrow> None | Some n \<Rightarrow> Some (i, n)))"

lemma legacy_exec_bounds:
  assumes "legacy_exec s lastIndex = Some (idx, n)"
  shows "lastIndex \<le> idx \<and> idx < length s \<and> 9 \<le> n"
proof -
  from assms obtain i where f: "find (\<lambda>i. legacy_at s i \<noteq> None) [lastIndex..<length s] = Some i"
    and c: "legacy_at s i = Some n" and i: "i = idx"
    by (auto simp: legacy_exec_def split: option.splits)
  from f have "i \<in> set [lastIndex..<length s]" by (auto simp: find_Some_iff)
  moreover from c have "9 \<le> n"
    by (auto simp: legacy_at_def split: option.splits if_splits dest: cougar_at_positive)
  ultimately show ?thesis using i by auto
qed

function replace_legacy_from :: "string \<Rightarrow> nat \<Rightarrow> string" where
  "replace_legacy_from s pos =
     (case legacy_exec s pos of
        None \<Rightarrow> drop pos s
      | Some (idx, n) \<Rightarrow> slice s pos idx @ ''Workday'' @ replace_legacy_from s (idx + n))"
  by pat_completeness auto
termination
  by (relation "measure (\<lambda>(s, pos). length s - pos)") (auto dest!: legacy_exec_bounds)

definition replace_legacy :: "string \<Rightarrow> string" where
  "replace_legacy s = replace_legacy_from s 0"

text \<open>
  The label of the generic feature. The source writes it with the dash U+2013, a code
  unit above 255; the model has a hyphen in its place.
\<close>

definition generic_feature :: string where
  "generic_feature = ''Workday - unified cloud-based system''"

text \<open>The finding that the \<open>else\<close> branch and the \<open>catch\<close> clause build, with its note.\<close>

definition fallback_finding :: "string \<Rightarrow> string \<Rightarrow> finding" where
  "fallback_finding snip note =
     \<lparr>html_context = snip,
      primary_audience = JStr ''mixed/other'',
      task_category = JStr ''generic_system_reference'',
      reference_type = JStr ''informational_reference'',
      workday_feature = JStr generic_feature,
      proposed_replacement = JStr (replace_legacy snip),
      suggested_keywords = JArr [JStr ''Workday''],
      confidence = ''low'',
      finding_notes = Some (JStr note)\<rparr>"

definition parsed_finding :: "string \<Rightarrow> (string \<times> json) list \<Rightarrow> finding" where
  "parsed_finding snip parsed =
     \<lparr>html_context = snip,
      primary_audience = or_default (map_of parsed ''primary_audience'') (JStr ''mixed/other''),
      task_category = or_default (map_of parsed ''task_category'') (JStr ''generic_system_reference''),
      reference_type = or_default (map_of parsed ''reference_type'') (JStr ''informational_reference''),
      workday_feature = or_default (map_of parsed ''workday_feature'') (JStr generic_feature),
      proposed_replacement = or_default (map_of parsed ''proposed_replacement'') (JStr snip),
      suggested_keywords =
        (case map_of parsed ''suggested_keywords'' of
           Some (JArr ks) \<Rightarrow> JArr ks
         | _ \<Rightarrow> JArr [JStr ''Workday'']),
      confidence =
        (case map_of parsed ''confidence'' of
           Some (JStr c) \<Rightarrow> if c \<in> set [''high'', ''medium'', ''low''] then c else ''low''
         | _ \<Rightarrow> ''low''),
      finding_notes = map_of parsed ''notes''\<rparr>"

text \<open>
  The body of the loop over the snippets: the \<open>try\<close> with its \<open>catch\<close>. \<open>outcome\<close> is
  what the call of \<open>chatCompletion\<close> for this snippet does.
\<close>

definition classify :: "(string \<Rightarrow> string + (string \<times> json) list) \<Rightarrow> string \<Rightarrow> thrown + string \<Rightarrow> finding" where
  "classify J snip outcome =
     (case outcome of
        Inl err \<Rightarrow>
          fallback_finding snip (case err of Error_object message \<Rightarrow> message | Other_value \<Rightarrow> ''Analysis failed'')
      | Inr response \<Rightarrow>
          (case json_match response of
             None \<Rightarrow> fallback_finding snip ''AI response could not be parsed''
           | Some jsonMatch \<Rightarrow>
               (case J jsonMatch of
                  Inl message \<Rightarrow> fallback_finding snip message
                | Inr parsed \<Rightarrow> parsed_finding snip parsed)))"

section \<open>The handler of the analyze route\<close>

text \<open>
  The body of the request is a JSON value. \<open>member body k\<close> is \<open>body.k\<close> for a body
  other than \<open>null\<close>: the member of an object, and \<open>undefined\<close>, here \<open>None\<close>, when
  the object has no such member or the body is no object. An entry of the array \<open>urls\<close>
  is any JSON value; the handler passes it to \<open>axios.get\<close> and repeats it in its
  result.
\<close>

definition member :: "json \<Rightarrow> string \<Rightarrow> json option" where
  "member body k = (case body of JObj ms \<Rightarrow> map_of ms k | _ \<Rightarrow> None)"

record analysis_result =
  result_url :: json
  pageTitle :: string
  hasLegacyReferences :: bool
  findings :: "finding list"

text \<open>
  The environment of one request: \<open>J\<close> as above, the API key, the answer \<open>net k u\<close> of
  the network to the request for the \<open>k\<close>-th entry \<open>u\<close> of the list, and the outcome
  \<open>api k j\<close> of the completion request for the \<open>j\<close>-th snippet of the \<open>k\<close>-th page.
  The prompt only reaches the completion service and is not modelled.
  \<open>env_above_zero l\<close> tells whether the platform's comparison \<open>l > 0\<close> holds or
  throws, for a string or an array \<open>l\<close>, which the platform first converts to a number
  by reading it as a numeral.
\<close>

record analyze_env =
  env_J :: "string \<Rightarrow> string + (string \<times> json) list"
  env_key :: "string option"
  env_net :: "nat \<Rightarrow> json \<Rightarrow> http_outcome"
  env_api :: "nat \<Rightarrow> nat \<Rightarrow> openai_outcome"
  env_above_zero :: "json \<Rightarrow> bool"

text \<open>The loop \<open>for (const { snippet } of snippets)\<close>, from the \<open>j\<close>-th snippet on.\<close>

fun classify_loop :: "analyze_env \<Rightarrow> nat \<Rightarrow> nat \<Rightarrow> found list \<Rightarrow> finding list \<Rightarrow> finding list" where
  "classify_loop E k j [] fs = fs"
| "classify_loop E k j (f # rest) fs =
     classify_loop E k (Suc j) rest
       (fs @ [classify (env_J E) (snippet f) (chatCompletion (env_key E) (env_api E k j))])"

text \<open>
  Whether the conversion of a JSON value to a string throws. The platform converts an
  object by calling its \<open>toString\<close>; an object that the request gave a member
  \<open>toString\<close> has no \<open>toString\<close> that could be called, and the conversion throws. An
  array is converted by joining its entries.
\<close>

fun ToString_throws :: "json \<Rightarrow> bool" where
  "ToString_throws (JObj ms) = (map_of ms ''toString'' \<noteq> None)"
| "ToString_throws (JArr xs) = list_ex ToString_throws xs"
| "ToString_throws v = False"

text \<open>
  \<open>l > 0\<close> for a member \<open>l\<close> of the request: whether it holds or throws. \<open>null\<close> is
  read as 0, \<open>true\<close> as 1 and an object as \<open>NaN\<close>.
\<close>

definition above_zero :: "analyze_env \<Rightarrow> json \<Rightarrow> bool" where
  "above_zero E l =
     (case l of
        JNum q \<Rightarrow> 0 < q
      | JBool b \<Rightarrow> b
      | JNull \<Rightarrow> False
      | JObj ms \<Rightarrow> ToString_throws (JObj ms)
      | _ \<Rightarrow> env_above_zero E l)"

text \<open>
  The two hints of the prompt, \<open>v?.length > 0 ? `... ${v.join(', ')}.` : ''\<close> for \<open>v\<close>
  one of \<open>workStreamAreas\<close> and \<open>keywords\<close>. They stand outside the \<open>try\<close> of the
  loop over the snippets, and \<open>hint_throws\<close> tells whether the expression throws. An
  array has a length and a \<open>join\<close>, which converts every entry other than \<open>null\<close> to
  a string. A string has a length and no \<open>join\<close>: when it is not empty, the call of
  \<open>v.join\<close> throws. An object has the member \<open>length\<close> that the request gave it, if
  any, and no \<open>join\<close> that could be called. \<open>null?.length\<close>, and the \<open>length\<close> of a
  number or of a boolean, are \<open>undefined\<close>, which is not above 0.
\<close>

definition hint_throws :: "analyze_env \<Rightarrow> json \<Rightarrow> bool" where
  "hint_throws E v =
     (case v of
        JStr s \<Rightarrow> length s > 0
      | JArr xs \<Rightarrow> length xs > 0 \<and> list_ex ToString_throws xs
      | JObj ms \<Rightarrow> (case map_of ms ''length'' of None \<Rightarrow> False | Some l \<Rightarrow> above_zero E l)
      | _ \<Rightarrow> False)"

text \<open>
  The body of the loop \<open>for (const url of urls)\<close>: the result it pushes, or \<open>None\<close>
  when a hint throws.
\<close>

definition analyze_url :: "analyze_env \<Rightarrow> json \<Rightarrow> json \<Rightarrow> nat \<Rightarrow> json \<Rightarrow> analysis_result option" where
  "analyze_url E keywords workStreamAreas k u =
     (case fetchPageContent (env_net E k u) of
        None \<Rightarrow> Some \<lparr>result_url = u, pageTitle = [], hasLegacyReferences = False, findings = []\<rparr>
      | Some pageContent \<Rightarrow>
          let snippets = findLegacySnippets (page_html pageContent) (page_text pageContent) in
          if length snippets = 0
          then Some \<lparr>result_url = u, pageTitle = page_title pageContent, hasLegacyReferences = False, findings = []\<rparr>
          else if hint_throws E workStreamAreas \<or> hint_throws E keywords then None
          else Some \<lparr>result_url = u, pageTitle = page_title pageContent, hasLegacyReferences = True,
                     findings = classify_loop E k 0 snippets []\<rparr>)"

text \<open>The loop over the URLs, from the \<open>k\<close>-th entry on; a throw ends it.\<close>

fun analyze_loop :: "analyze_env \<Rightarrow> json \<Rightarrow> json \<Rightarrow> nat \<Rightarrow> json list \<Rightarrow> analysis_result list \<Rightarrow> analysis_result list option" where
  "analyze_loop E keywords workStreamAreas k [] results = Some results"
| "analyze_loop E keywords workStreamAreas k (u # rest) results =
     (case analyze_url E keywords workStreamAreas k u of
        None \<Rightarrow> None
      | Some r \<Rightarrow> analyze_loop E keywords workStreamAreas (Suc k) rest (results @ [r]))"

text \<open>
  \<open>POST\<close>. \<open>request\<close> is the body that \<open>request.json()\<close> gives, or \<open>None\<close> when the
  request holds no JSON text and \<open>request.json()\<close> throws. Destructuring the body
  \<open>null\<close> throws. A hint that the body does not have is the empty array. Whatever is
  thrown is answered with status 500 and the message of the error, which is the
  platform's text and is left out.
\<close>

datatype analyze_response =
    Analyze_success "analysis_result list"
  | Analyze_bad_request string
  | Analyze_server_error

definition hint_or_default :: "json \<Rightarrow> string \<Rightarrow> json" where
  "hint_or_default body k = (case member body k of None \<Rightarrow> JArr [] | Some v \<Rightarrow> v)"

definition analyze_POST :: "analyze_env \<Rightarrow> json option \<Rightarrow> analyze_response" where
  "analyze_POST E request =
     (case request of
        None \<Rightarrow> Analyze_server_error
      | Some body \<Rightarrow>
          if body = JNull then Analyze_server_error
          else
            let urls = member body ''urls'';
                keywords = hint_or_default body ''keywords'';
                workStreamAreas = hint_or_default body ''workStreamAreas''
            in
            (case urls of
               Some (JArr us) \<Rightarrow>
                 if length us = 0 then Analyze_bad_request ''urls array is required''
                 else if length us > 500 then Analyze_bad_request ''Maximum 500 URLs per request''
                 else
                   (case analyze_loop E keywords workStreamAreas 0 us [] of
                      None \<Rightarrow> Analyze_server_error
                    | Some results \<Rightarrow> Analyze_success results)
             | _ \<Rightarrow> Analyze_bad_request ''urls array is required''))"

section \<open>Properties of the crawl\<close>

subsection \<open>Reasoning about the two loops\<close>

lemma crawl_loop_Next:
  "crawl_step A net maxUrls maxDepth s = Next s' \<Longrightarrow>
     crawl_loop A net maxUrls maxDepth s = crawl_loop A net maxUrls maxDepth s'"
  by (subst crawl_loop.simps) simp

lemma crawl_loop_Stop:
  "crawl_step A net maxUrls maxDepth s = Stop r t \<Longrightarrow> crawl_loop A net maxUrls maxDepth s = Some (r, t)"
  by (subst crawl_loop.simps) simp

text \<open>An invariant of the rounds holds of the outcome of every crawl that returns.\<close>

lemma crawl_loop_rule:
  fixes A :: "'u url_api"
  assumes run: "crawl_loop A net maxUrls maxDepth s = Some (r, t)"
    and init: "I s"
    and "next": "\<And>s s'. I s \<Longrightarrow> crawl_step A net maxUrls maxDepth s = Next s' \<Longrightarrow> I s'"
    and stop: "\<And>s r t. I s \<Longrightarrow> crawl_step A net maxUrls maxDepth s = Stop r t \<Longrightarrow> Q r t"
  shows "Q r t"
proof -
  define P where "P = (\<lambda>(A' :: 'u url_api) net' mu md s (y :: crawl_result \<times> crawl_event list).
    A' = A \<longrightarrow> net' = net \<longrightarrow> mu = maxUrls \<longrightarrow> md = maxDepth \<longrightarrow> I s \<longrightarrow> Q (fst y) (snd y))"
  have "P A net maxUrls maxDepth s (r, t)"
  proof (rule crawl_loop.raw_induct [where P = P, OF _ run])
    fix f and A' :: "'u url_api" and net' mu md s y
    assume IH: "\<And>A' net' mu md s y. f A' net' mu md s = Some y \<Longrightarrow> P A' net' mu md s y"
      and eq: "(case crawl_step A' net' mu md s of Next s' \<Rightarrow> f A' net' mu md s' | Stop r t \<Rightarrow> Some (r, t)) = Some y"
    show "P A' net' mu md s y"
      unfolding P_def
    proof (intro impI)
      assume eqs: "A' = A" "net' = net" "mu = maxUrls" "md = maxDepth" and I: "I s"
      show "Q (fst y) (snd y)"
      proof (cases "crawl_step A net maxUrls maxDepth s")
        case (Next s')
        with eq eqs have "f A net maxUrls maxDepth s' = Some y" by simp
        from IH [OF this] "next" [OF I Next] show ?thesis by (simp add: P_def)
      next
        case (Stop r t)
        with eq eqs have "y = (r, t)" by simp
        with stop [OF I Stop] show ?thesis by simp
      qed
    qed
  qed
  with init show ?thesis by (simp add: P_def)
qed

lemma crawl_loop_excl_Next:
  "crawl_step_excl A net maxUrls maxDepth X s = Next s' \<Longrightarrow>
     crawl_loop_excl A net maxUrls maxDepth X s = crawl_loop_excl A net maxUrls maxDepth X s'"
  by (subst crawl_loop_excl.simps) simp

lemma crawl_loop_excl_Stop:
  "crawl_step_excl A net maxUrls maxDepth X s = Stop r t \<Longrightarrow>
     crawl_loop_excl A net maxUrls maxDepth X s = Some (r, t)"
  by (subst crawl_loop_excl.simps) simp

lemma crawl_loop_excl_rule:
  fixes A :: "'u url_api"
  assumes run: "crawl_loop_excl A net maxUrls maxDepth X s = Some (r, t)"
    and init: "I s"
    and "next": "\<And>s s'. I s \<Longrightarrow> crawl_step_excl A net maxUrls maxDepth X s = Next s' \<Longrightarrow> I s'"
    and stop: "\<And>s r t. I s \<Longrightarrow> crawl_step_excl A net maxUrls maxDepth X s = Stop r t \<Longrightarrow> Q r t"
  shows "Q r t"
proof -
  define P where "P = (\<lambda>(A' :: 'u url_api) net' mu md X' s (y :: crawl_result \<times> crawl_event list).
    A' = A \<longrightarrow> net' = net \<longrightarrow> mu = maxUrls \<longrightarrow> md = maxDepth \<longrightarrow> X' = X \<longrightarrow> I s \<longrightarrow> Q (fst y) (snd y))"
  have "P A net maxUrls maxDepth X s (r, t)"
  proof (rule crawl_loop_excl.raw_induct [where P = P, OF _ run])
    fix f and A' :: "'u url_api" and net' mu md X' s y
    assume IH: "\<And>A' net' mu md X' s y. f A' net' mu md X' s = Some y \<Longrightarrow> P A' net' mu md X' s y"
      and eq: "(case crawl_step_excl A' net' mu md X' s of
                  Next s' \<Rightarrow> f A' net' mu md X' s' | Stop r t \<Rightarrow> Some (r, t)) = Some y"
    show "P A' net' mu md X' s y"
      unfolding P_def
    proof (intro impI)
      assume eqs: "A' = A" "net' = net" "mu = maxUrls" "md = maxDepth" "X' = X" and I: "I s"
      show "Q (fst y) (snd y)"
      proof (cases "crawl_step_excl A net maxUrls maxDepth X s")
        case (Next s')
        with eq eqs have "f A net maxUrls maxDepth X s' = Some y" by simp
        from IH [OF this] "next" [OF I Next] show ?thesis by (simp add: P_def)
      next
        case (Stop r t)
        with eq eqs have "y = (r, t)" by simp
        with stop [OF I Stop] show ?thesis by simp
      qed
    qed
  qed
  with init show ?thesis by (simp add: P_def)
qed

subsection \<open>The crawl returns\<close>

text \<open>
  Every round either shortens the queue and records nothing, or records one URL while
  fewer than \<open>maxUrls\<close> are recorded. So with a finite \<open>maxUrls\<close> the rounds come to an
  end; with \<open>NaN\<close> or \<open>-Infinity\<close> there is no round at all.
\<close>

definition crawl_measure :: "rat \<Rightarrow> crawl_state \<Rightarrow> nat \<times> nat" where
  "crawl_measure q s = (nat \<lceil>q\<rceil> - length (urls s), length (queue s))"

lemma below_ceiling: "lt (nat_number k) (Finite q) \<Longrightarrow> k < nat \<lceil>q\<rceil>"
proof -
  assume "lt (nat_number k) (Finite q)"
  then have "of_nat k < q" by (simp add: nat_number_def)
  also have "q \<le> of_int \<lceil>q\<rceil>" by simp
  finally have "int k < \<lceil>q\<rceil>" by (simp only: of_nat_less_of_int_iff)
  then show ?thesis by simp
qed

lemma progress_decreases:
  assumes "(urls s' = urls s \<and> length (queue s') < length (queue s))
     \<or> (lt (nat_number (length (urls s))) (Finite q) \<and> length (urls s') = Suc (length (urls s)))"
  shows "(s', s) \<in> inv_image (less_than <*lex*> less_than) (crawl_measure q)"
  using assms by (auto simp: crawl_measure_def dest!: below_ceiling)

lemma wf_crawl_measure: "wf (inv_image (less_than <*lex*> less_than) (crawl_measure q))"
  by (intro wf_inv_image wf_lex_prod wf_less_than)

lemma crawl_step_progress:
  "crawl_step A net maxUrls maxDepth s = Next s' \<Longrightarrow>
     (urls s' = urls s \<and> length (queue s') < length (queue s))
     \<or> (lt (nat_number (length (urls s))) maxUrls \<and> length (urls s') = Suc (length (urls s)))"
  by (auto simp: crawl_step_def Let_def
           split: list.splits if_splits option.splits sum.splits)

lemma crawl_step_excl_progress:
  "crawl_step_excl A net maxUrls maxDepth X s = Next s' \<Longrightarrow>
     (urls s' = urls s \<and> length (queue s') < length (queue s))
     \<or> (lt (nat_number (length (urls s))) maxUrls \<and> length (urls s') = Suc (length (urls s)))"
  by (auto simp: crawl_step_excl_def Let_def
           split: list.splits if_splits option.splits sum.splits)

lemma crawl_step_no_round:
  "\<not> lt (nat_number (length (urls s))) maxUrls \<Longrightarrow>
     crawl_step A net maxUrls maxDepth s = Stop (Returned (urls s)) (trace s)"
  by (simp add: crawl_step_def split: list.splits)

lemma crawl_step_excl_no_round:
  "\<not> lt (nat_number (length (urls s))) maxUrls \<Longrightarrow>
     crawl_step_excl A net maxUrls maxDepth X s = Stop (Returned (urls s)) (trace s)"
  by (simp add: crawl_step_excl_def split: list.splits)

lemma crawl_loop_returns:
  assumes "maxUrls \<noteq> Infinity"
  shows "\<exists>y. crawl_loop A net maxUrls maxDepth s = Some y"
proof (cases maxUrls)
  case (Finite q)
  have "\<exists>y. crawl_loop A net (Finite q) maxDepth s = Some y"
    using wf_crawl_measure [of q]
  proof (induction s rule: wf_induct_rule)
    case (less s)
    show ?case
    proof (cases "crawl_step A net (Finite q) maxDepth s")
      case (Next s')
      from less [OF progress_decreases [OF crawl_step_progress [OF Next]]]
      show ?thesis by (simp add: crawl_loop_Next [OF Next])
    next
      case (Stop r t)
      then show ?thesis by (simp add: crawl_loop_Stop)
    qed
  qed
  with Finite show ?thesis by simp
next
  case Infinity
  with assms show ?thesis by simp
next
  case Minus_Infinity
  then show ?thesis by (simp add: crawl_loop_Stop [OF crawl_step_no_round] nat_number_def)
next
  case NaN
  then show ?thesis by (simp add: crawl_loop_Stop [OF crawl_step_no_round] nat_number_def)
qed

lemma crawl_loop_excl_returns:
  assumes "maxUrls \<noteq> Infinity"
  shows "\<exists>y. crawl_loop_excl A net maxUrls maxDepth X s = Some y"
proof (cases maxUrls)
  case (Finite q)
  have "\<exists>y. crawl_loop_excl A net (Finite q) maxDepth X s = Some y"
    using wf_crawl_measure [of q]
  proof (induction s rule: wf_induct_rule)
    case (less s)
    show ?case
    proof (cases "crawl_step_excl A net (Finite q) maxDepth X s")
      case (Next s')
      from less [OF progress_decreases [OF crawl_step_excl_progress [OF Next]]]
      show ?thesis by (simp add: crawl_loop_excl_Next [OF Next])
    next
      case (Stop r t)
      then show ?thesis by (simp add: crawl_loop_excl_Stop)
    qed
  qed
  with Finite show ?thesis by simp
next
  case Infinity
  with assms show ?thesis by simp
next
  case Minus_Infinity
  then show ?thesis by (simp add: crawl_loop_excl_Stop [OF crawl_step_excl_no_round] nat_number_def)
next
  case NaN
  then show ?thesis by (simp add: crawl_loop_excl_Stop [OF crawl_step_excl_no_round] nat_number_def)
qed

lemma crawlWebsite_returns:
  "maxUrls \<noteq> Infinity \<Longrightarrow> crawlWebsite A net startUrl maxUrls maxDepth \<noteq> None"
  using crawl_loop_returns [of maxUrls A net maxDepth] by (auto simp: crawlWebsite_def)

lemma crawlWebsite_excl_returns:
  "maxUrls \<noteq> Infinity \<Longrightarrow> crawlWebsite_excl A net startUrl maxUrls maxDepth excludeUrls \<noteq> None"
  using crawl_loop_excl_returns [of maxUrls A net maxDepth]
  by (auto simp: crawlWebsite_excl_def split: option.splits)

text \<open>
  The handler refuses \<open>Infinity\<close> for \<open>maxUrls\<close>, as it is above 300: a request is always
  answered.
\<close>

lemma scan_checks_finite: "scan_checks A body = Inr (u, maxUrls, maxDepth) \<Longrightarrow> maxUrls \<noteq> Infinity"
  by (auto simp: scan_checks_def Let_def split: option.splits if_splits json.splits body_number.splits)

lemma scan_POST_answers: "scan_POST A net request \<noteq> None \<and> scan_POST_excl A net request \<noteq> None"
proof (cases request)
  case None
  then show ?thesis by (simp add: scan_POST_def scan_POST_excl_def)
next
  case (Some body)
  show ?thesis
  proof (cases "scan_checks A body")
    case (Inl answer)
    with Some show ?thesis by (simp add: scan_POST_def scan_POST_excl_def)
  next
    case (Inr x)
    obtain u maxUrls maxDepth where x: "x = (u, maxUrls, maxDepth)" by (cases x) auto
    from Inr x have fin: "maxUrls \<noteq> Infinity" by (auto dest: scan_checks_finite)
    obtain r t where run: "crawlWebsite A net u maxUrls maxDepth = Some (r, t)"
      using crawlWebsite_returns [OF fin, of A net u maxDepth] by auto
    have plain: "scan_POST A net request \<noteq> None"
      using Some Inr x run by (cases r) (simp_all add: scan_POST_def)
    let ?list = "case body_excludeUrls body of Some (JArr xs) \<Rightarrow> xs | _ \<Rightarrow> []"
    have "scan_POST_excl A net request \<noteq> None"
    proof (cases "strings_of ?list")
      case None
      with Some Inr x show ?thesis by (simp add: scan_POST_excl_def)
    next
      case (Some ex)
      obtain r' t' where "crawlWebsite_excl A net u maxUrls maxDepth ex = Some (r', t')"
        using crawlWebsite_excl_returns [OF fin, of A net u maxDepth ex] by auto
      with Some \<open>request = Some body\<close> Inr x show ?thesis
        by (cases r') (simp_all add: scan_POST_excl_def)
    qed
    with plain show ?thesis by simp
  qed
qed

subsection \<open>The caps on depth and on the number of URLs\<close>

text \<open>
  The invariant of both loops: no recorded depth is above \<open>maxDepth\<close>, and when the
  last URL was recorded, fewer than \<open>maxUrls\<close> were.
\<close>

definition within_caps :: "number \<Rightarrow> number \<Rightarrow> URLData list \<Rightarrow> bool" where
  "within_caps maxUrls maxDepth us =
     (list_all (\<lambda>r. \<not> lt maxDepth (nat_number (depth r))) us
      \<and> (us = [] \<or> lt (nat_number (length us - 1)) maxUrls))"

lemma crawl_step_records:
  "crawl_step A net maxUrls maxDepth s = Next s' \<Longrightarrow>
     urls s' = urls s
     \<or> (\<exists>r. urls s' = urls s @ [r] \<and> \<not> lt maxDepth (nat_number (depth r))
            \<and> lt (nat_number (length (urls s))) maxUrls)"
  by (auto simp: crawl_step_def Let_def
           split: list.splits if_splits option.splits sum.splits)

lemma crawl_step_excl_records:
  "crawl_step_excl A net maxUrls maxDepth X s = Next s' \<Longrightarrow>
     urls s' = urls s
     \<or> (\<exists>r. urls s' = urls s @ [r] \<and> \<not> lt maxDepth (nat_number (depth r))
            \<and> lt (nat_number (length (urls s))) maxUrls)"
  by (auto simp: crawl_step_excl_def Let_def
           split: list.splits if_splits option.splits sum.splits)

lemma crawl_step_urls_Stop:
  "crawl_step A net maxUrls maxDepth s = Stop (Returned us) t \<Longrightarrow> us = urls s"
  by (auto simp: crawl_step_def Let_def split: list.splits if_splits option.splits sum.splits)

lemma crawl_step_excl_urls_Stop:
  "crawl_step_excl A net maxUrls maxDepth X s = Stop (Returned us) t \<Longrightarrow> us = urls s"
  by (auto simp: crawl_step_excl_def Let_def split: list.splits if_splits option.splits sum.splits)

lemma within_caps_records:
  assumes "within_caps maxUrls maxDepth us"
    and "us' = us
     \<or> (\<exists>r. us' = us @ [r] \<and> \<not> lt maxDepth (nat_number (depth r))
            \<and> lt (nat_number (length us)) maxUrls)"
  shows "within_caps maxUrls maxDepth us'"
  using assms by (auto simp: within_caps_def)

lemma crawl_loop_caps:
  assumes "within_caps maxUrls maxDepth (urls s)"
    and "crawl_loop A net maxUrls maxDepth s = Some (Returned us, t)"
  shows "within_caps maxUrls maxDepth us"
proof -
  have "\<forall>us'. Returned us = Returned us' \<longrightarrow> within_caps maxUrls maxDepth us'"
  proof (rule crawl_loop_rule [OF assms(2), where I = "\<lambda>s. within_caps maxUrls maxDepth (urls s)"
                                and Q = "\<lambda>r t. \<forall>us. r = Returned us \<longrightarrow> within_caps maxUrls maxDepth us"])
    show "within_caps maxUrls maxDepth (urls s)" by (rule assms(1))
  next
    fix s s'
    assume "within_caps maxUrls maxDepth (urls s)" and "crawl_step A net maxUrls maxDepth s = Next s'"
    then show "within_caps maxUrls maxDepth (urls s')"
      by (blast intro: within_caps_records dest: crawl_step_records)
  next
    fix s r t
    assume "within_caps maxUrls maxDepth (urls s)" and "crawl_step A net maxUrls maxDepth s = Stop r t"
    then show "\<forall>us. r = Returned us \<longrightarrow> within_caps maxUrls maxDepth us"
      by (auto dest: crawl_step_urls_Stop)
  qed
  then show ?thesis by simp
qed

lemma crawl_loop_excl_caps:
  assumes "within_caps maxUrls maxDepth (urls s)"
    and "crawl_loop_excl A net maxUrls maxDepth X s = Some (Returned us, t)"
  shows "within_caps maxUrls maxDepth us"
proof -
  have "\<forall>us'. Returned us = Returned us' \<longrightarrow> within_caps maxUrls maxDepth us'"
  proof (rule crawl_loop_excl_rule [OF assms(2), where I = "\<lambda>s. within_caps maxUrls maxDepth (urls s)"
                                and Q = "\<lambda>r t. \<forall>us. r = Returned us \<longrightarrow> within_caps maxUrls maxDepth us"])
    show "within_caps maxUrls maxDepth (urls s)" by (rule assms(1))
  next
    fix s s'
    assume "within_caps maxUrls maxDepth (urls s)" and "crawl_step_excl A net maxUrls maxDepth X s = Next s'"
    then show "within_caps maxUrls maxDepth (urls s')"
      by (blast intro: within_caps_records dest: crawl_step_excl_records)
  next
    fix s r t
    assume "within_caps maxUrls maxDepth (urls s)" and "crawl_step_excl A net maxUrls maxDepth X s = Stop r t"
    then show "\<forall>us. r = Returned us \<longrightarrow> within_caps maxUrls maxDepth us"
      by (auto dest: crawl_step_excl_urls_Stop)
  qed
  then show ?thesis by simp
qed

lemma crawlWebsite_caps:
  assumes "crawlWebsite A net startUrl maxUrls maxDepth = Some (Returned us, t)
           \<or> crawlWebsite_excl A net startUrl maxUrls maxDepth excludeUrls = Some (Returned us, t)"
  shows "within_caps maxUrls maxDepth us"
  using assms
proof
  assume "crawlWebsite A net startUrl maxUrls maxDepth = Some (Returned us, t)"
  then show ?thesis
    unfolding crawlWebsite_def by (rule crawl_loop_caps [rotated]) (simp add: within_caps_def)
next
  assume r: "crawlWebsite_excl A net startUrl maxUrls maxDepth excludeUrls = Some (Returned us, t)"
  show ?thesis
  proof (cases "normalizeUrl A (with_scheme startUrl)")
    case None
    with r show ?thesis by (simp add: crawlWebsite_excl_def within_caps_def)
  next
    case (Some n)
    show ?thesis
    proof (cases "n = []")
      case True
      with r Some show ?thesis by (simp add: crawlWebsite_excl_def within_caps_def)
    next
      case False
      with r Some
      have "crawl_loop_excl A net maxUrls maxDepth (exclude_set A excludeUrls)
              \<lparr>queue = [\<lparr>url = n, depth = 0\<rparr>], visited = {}, urls = [], trace = []\<rparr> = Some (Returned us, t)"
        by (simp add: crawlWebsite_excl_def)
      then show ?thesis
        by (rule crawl_loop_excl_caps [rotated]) (simp add: within_caps_def)
    qed
  qed
qed

lemma within_caps_length:
  assumes "within_caps (Finite q) maxDepth us"
  shows "int (length us) \<le> max 0 \<lceil>q\<rceil>"
proof (cases "us = []")
  case True
  then show ?thesis by simp
next
  case False
  with assms have "lt (nat_number (length us - 1)) (Finite q)" by (simp add: within_caps_def)
  then have "length us - 1 < nat \<lceil>q\<rceil>" by (rule below_ceiling)
  with False show ?thesis by (cases us) auto
qed

lemma within_caps_count:
  assumes "within_caps (nat_number k) maxDepth us"
  shows "length us \<le> k"
  using assms by (cases us) (auto simp: within_caps_def nat_number_def)

lemma within_caps_none:
  assumes "within_caps maxUrls maxDepth us"
    and "maxUrls = NaN \<or> maxUrls = Minus_Infinity \<or> maxDepth = Minus_Infinity"
  shows "us = []"
  using assms by (cases us) (auto simp: within_caps_def nat_number_def)

definition offline :: "string \<Rightarrow> http_outcome" where
  "offline u = No_response"

text \<open>
  A small site for concrete runs: the start page links to a page of the same host, to a
  page of a subdomain and to a page of another domain; the first of these answers with
  status 500, and nothing else answers.
\<close>

definition example_site :: "string \<Rightarrow> http_outcome" where
  "example_site u =
     (if u = ''https://example.edu''
      then Response 200 (Text ''<a href=\"https://example.edu/a/\">A</a> <a HREF='https://www.example.edu/b#top'>B</a> <a href=\"https://other.org/\">C</a>'')
      else if u = ''https://example.edu/a'' then Response 500 (Text '''')
      else No_response)"

text \<open>
  Claim C2, as the code has it, for a run of either scan route. With any \<open>maxUrls\<close>
  other than \<open>Infinity\<close>, which the handler refuses, the crawl returns or throws.
  Whenever it returns a list, no record of the list has a depth above \<open>maxDepth\<close>: a
  depth of at most \<open>maxDepth\<close> when that is finite. With a finite \<open>maxUrls\<close> the length
  of the list is at most \<open>maxUrls\<close> rounded up to the next integer, and at most 0 when
  that is negative; so it is at most \<open>maxUrls\<close> when \<open>maxUrls\<close> is a count. With
  \<open>maxUrls\<close> one of \<open>NaN\<close> and \<open>-Infinity\<close>, or \<open>maxDepth = -Infinity\<close>, the list is
  empty.
\<close>

theorem crawl_within_caps:
  assumes "run = crawlWebsite A net startUrl maxUrls maxDepth
           \<or> run = crawlWebsite_excl A net startUrl maxUrls maxDepth excludeUrls"
  shows "(maxUrls \<noteq> Infinity \<longrightarrow> run \<noteq> None)
       \<and> (\<forall>us t. run = Some (Returned us, t) \<longrightarrow>
            (\<forall>r \<in> set us. \<not> lt maxDepth (nat_number (depth r)))
          \<and> (\<forall>d. maxDepth = Finite d \<longrightarrow> (\<forall>r \<in> set us. of_nat (depth r) \<le> d))
          \<and> (\<forall>q. maxUrls = Finite q \<longrightarrow> int (length us) \<le> max 0 \<lceil>q\<rceil>)
          \<and> (\<forall>k. maxUrls = nat_number k \<longrightarrow> length us \<le> k)
          \<and> (maxUrls = NaN \<or> maxUrls = Minus_Infinity \<or> maxDepth = Minus_Infinity \<longrightarrow> us = []))"
proof (intro conjI allI impI)
  assume fin: "maxUrls \<noteq> Infinity"
  from assms show "run \<noteq> None"
  proof
    assume "run = crawlWebsite A net startUrl maxUrls maxDepth"
    with crawlWebsite_returns [OF fin, of A net startUrl maxDepth] show ?thesis by simp
  next
    assume "run = crawlWebsite_excl A net startUrl maxUrls maxDepth excludeUrls"
    with crawlWebsite_excl_returns [OF fin, of A net startUrl maxDepth excludeUrls] show ?thesis by simp
  qed
next
  fix us t
  assume "run = Some (Returned us, t)"
  with assms have caps: "within_caps maxUrls maxDepth us"
    by (intro crawlWebsite_caps [of A net startUrl maxUrls maxDepth us t excludeUrls]) auto
  then have depths: "\<not> lt maxDepth (nat_number (depth r))" if "r \<in> set us" for r
    using that by (simp add: within_caps_def list_all_iff)
  show "\<forall>r \<in> set us. \<not> lt maxDepth (nat_number (depth r))"
    using depths by blast
  show "\<forall>r \<in> set us. of_nat (depth r) \<le> d" if "maxDepth = Finite d" for d
    using depths that by (auto simp: nat_number_def not_less)
  show "int (length us) \<le> max 0 \<lceil>q\<rceil>" if "maxUrls = Finite q" for q
    using caps that by (auto dest: within_caps_length)
  show "length us \<le> k" if "maxUrls = nat_number k" for k
    using caps that by (auto dest: within_caps_count)
  show "us = []" if "maxUrls = NaN \<or> maxUrls = Minus_Infinity \<or> maxDepth = Minus_Infinity"
    using caps that by (rule within_caps_none)
qed

theorem crawl_within_caps_witness:
  "crawlWebsite plain_urls example_site ''https://example.edu'' (Finite 200) (Finite 1) =
     Some (Returned [\<lparr>url = ''https://example.edu'', depth = 0\<rparr>,
                     \<lparr>url = ''https://example.edu/a'', depth = 1\<rparr>,
                     \<lparr>url = ''https://www.example.edu/b'', depth = 1\<rparr>],
           [Fetched ''https://example.edu'', Expanded ''https://example.edu''])
   \<and> crawlWebsite_excl plain_urls example_site ''https://example.edu'' (nat_number 2) (Finite 1) [] =
     Some (Returned [\<lparr>url = ''https://example.edu'', depth = 0\<rparr>,
                     \<lparr>url = ''https://example.edu/a'', depth = 1\<rparr>],
           [Fetched ''https://example.edu'', Expanded ''https://example.edu''])
   \<and> list_all (\<lambda>r. of_nat (depth r) \<le> (1 :: rat))
         [\<lparr>url = ''https://example.edu'', depth = 0\<rparr>,
          \<lparr>url = ''https://example.edu/a'', depth = 1\<rparr>,
          \<lparr>url = ''https://www.example.edu/b'', depth = 1\<rparr>]
   \<and> int (length [\<lparr>url = ''https://example.edu'', depth = 0\<rparr>,
                    \<lparr>url = ''https://example.edu/a'', depth = 1\<rparr>,
                    \<lparr>url = ''https://www.example.edu/b'', depth = 1\<rparr>]) \<le> max 0 \<lceil>200 :: rat\<rceil>
   \<and> length [\<lparr>url = ''https://example.edu'', depth = 0\<rparr>,
              \<lparr>url = ''https://example.edu/a'', depth = 1\<rparr>] \<le> 2"
proof -
  have r1: "crawlWebsite plain_urls example_site ''https://example.edu'' (Finite 200) (Finite 1) =
     Some (Returned [\<lparr>url = ''https://example.edu'', depth = 0\<rparr>,
                     \<lparr>url = ''https://example.edu/a'', depth = 1\<rparr>,
                     \<lparr>url = ''https://www.example.edu/b'', depth = 1\<rparr>],
           [Fetched ''https://example.edu'', Expanded ''https://example.edu''])"
    by code_simp
  have r2: "crawlWebsite_excl plain_urls example_site ''https://example.edu'' (nat_number 2) (Finite 1) [] =
     Some (Returned [\<lparr>url = ''https://example.edu'', depth = 0\<rparr>,
                     \<lparr>url = ''https://example.edu/a'', depth = 1\<rparr>],
           [Fetched ''https://example.edu'', Expanded ''https://example.edu''])"
    by code_simp
  note T1 = crawl_within_caps [where run = "crawlWebsite plain_urls example_site ''https://example.edu'' (Finite 200) (Finite 1)"
      and A = plain_urls and net = example_site and startUrl = "''https://example.edu''"
      and maxUrls = "Finite 200" and maxDepth = "Finite 1" and excludeUrls = "[]", OF disjI1 [OF refl]]
  note T2 = crawl_within_caps [where run = "crawlWebsite_excl plain_urls example_site ''https://example.edu'' (nat_number 2) (Finite 1) []"
      and A = plain_urls and net = example_site and startUrl = "''https://example.edu''"
      and maxUrls = "nat_number 2" and maxDepth = "Finite 1" and excludeUrls = "[]", OF disjI2 [OF refl]]
  from T1 r1 have a: "list_all (\<lambda>r. of_nat (depth r) \<le> (1 :: rat))
         [\<lparr>url = ''https://example.edu'', depth = 0\<rparr>,
          \<lparr>url = ''https://example.edu/a'', depth = 1\<rparr>,
          \<lparr>url = ''https://www.example.edu/b'', depth = 1\<rparr>]"
    unfolding list_all_iff by blast
  from T1 r1 have b: "int (length [\<lparr>url = ''https://example.edu'', depth = 0\<rparr>,
                    \<lparr>url = ''https://example.edu/a'', depth = 1\<rparr>,
                    \<lparr>url = ''https://www.example.edu/b'', depth = 1\<rparr>]) \<le> max 0 \<lceil>200 :: rat\<rceil>"
    by blast
  from T2 r2 have c: "length [\<lparr>url = ''https://example.edu'', depth = 0\<rparr>,
              \<lparr>url = ''https://example.edu/a'', depth = 1\<rparr>] \<le> 2"
    by blast
  from r1 r2 a b c show ?thesis by blast
qed

text \<open>
  The claim as the specification words it bounds the length by \<open>maxUrls\<close> itself. The
  handler refuses a \<open>maxUrls\<close> above 300 and nothing else. With \<open>maxUrls = 1.5\<close> the
  loop records a second URL, as 1 is below 1.5, and returns two records; with
  \<open>maxUrls = -1\<close> it returns the empty list, whose length 0 is above \<open>-1\<close>.
\<close>

theorem crawl_length_above_cap_counterexample:
  "scan_POST plain_urls example_site
     (Some \<lparr>body_url = Some (JStr ''https://example.edu''), body_maxUrls = Some (Reads (Finite (3 / 2))),
            body_maxDepth = Some (Reads (Finite 1)), body_excludeUrls = None\<rparr>)
     = Some (Scan_success [\<lparr>url = ''https://example.edu'', depth = 0\<rparr>,
                           \<lparr>url = ''https://example.edu/a'', depth = 1\<rparr>] 2,
             [Fetched ''https://example.edu'', Expanded ''https://example.edu''])
   \<and> lt (Finite (3 / 2)) (nat_number 2)
   \<and> crawlWebsite plain_urls offline ''https://example.edu'' (Finite (- 1)) (Finite 5) = Some (Returned [], [])
   \<and> lt (Finite (- 1)) (nat_number (length ([] :: URLData list)))"
  by code_simp

subsection \<open>The exclude set\<close>

lemma exclude_set_foldl:
  "foldl (\<lambda>excludeSet u.
              case normalizeUrl A (with_scheme u) of
                None \<Rightarrow> excludeSet
              | Some n \<Rightarrow> if n \<noteq> [] then insert n excludeSet else excludeSet) S ex
   = S \<union> {n. n \<noteq> [] \<and> (\<exists>e \<in> set ex. normalizeUrl A (with_scheme e) = Some n)}"
  by (induction ex arbitrary: S) (auto split: option.splits)

lemma exclude_set_iff:
  "n \<in> exclude_set A ex \<longleftrightarrow> n \<noteq> [] \<and> (\<exists>e \<in> set ex. normalizeUrl A (with_scheme e) = Some n)"
  by (simp add: exclude_set_def exclude_set_foldl)

fun event_url :: "crawl_event \<Rightarrow> string" where
  "event_url (Fetched u) = u"
| "event_url (Expanded u) = u"

definition avoids :: "string set \<Rightarrow> crawl_event list \<Rightarrow> URLData list \<Rightarrow> bool" where
  "avoids X t us = (list_all (\<lambda>ev. event_url ev \<notin> X) t \<and> list_all (\<lambda>r. url r \<notin> X) us)"

lemma crawl_step_excl_avoids_Next:
  "avoids X (trace s) (urls s) \<Longrightarrow> crawl_step_excl A net maxUrls maxDepth X s = Next s' \<Longrightarrow>
     avoids X (trace s') (urls s')"
  by (auto simp: crawl_step_excl_def avoids_def Let_def
           split: list.splits if_splits option.splits sum.splits)

lemma crawl_step_excl_avoids_Stop:
  "avoids X (trace s) (urls s) \<Longrightarrow> crawl_step_excl A net maxUrls maxDepth X s = Stop r t \<Longrightarrow>
     list_all (\<lambda>ev. event_url ev \<notin> X) t \<and> (\<forall>us. r = Returned us \<longrightarrow> list_all (\<lambda>r. url r \<notin> X) us)"
  by (auto simp: crawl_step_excl_def avoids_def Let_def
           split: list.splits if_splits option.splits sum.splits)

lemma crawl_loop_excl_avoids:
  assumes "avoids X (trace s) (urls s)"
    and "crawl_loop_excl A net maxUrls maxDepth X s = Some (r, t)"
  shows "list_all (\<lambda>ev. event_url ev \<notin> X) t \<and> (\<forall>us. r = Returned us \<longrightarrow> list_all (\<lambda>r. url r \<notin> X) us)"
  by (rule crawl_loop_excl_rule [OF assms(2), where I = "\<lambda>s. avoids X (trace s) (urls s)"
        and Q = "\<lambda>r t. list_all (\<lambda>ev. event_url ev \<notin> X) t \<and> (\<forall>us. r = Returned us \<longrightarrow> list_all (\<lambda>r. url r \<notin> X) us)"])
     (use assms(1) in \<open>auto dest: crawl_step_excl_avoids_Next crawl_step_excl_avoids_Stop\<close>)

lemma crawlWebsite_excl_avoids:
  assumes "crawlWebsite_excl A net startUrl maxUrls maxDepth excludeUrls = Some (r, t)"
  shows "list_all (\<lambda>ev. event_url ev \<notin> exclude_set A excludeUrls) t
       \<and> (\<forall>us. r = Returned us \<longrightarrow> list_all (\<lambda>r. url r \<notin> exclude_set A excludeUrls) us)"
proof (cases "normalizeUrl A (with_scheme startUrl)")
  case None
  with assms show ?thesis by (auto simp: crawlWebsite_excl_def)
next
  case (Some n)
  show ?thesis
  proof (cases "n = []")
    case True
    with assms Some show ?thesis by (auto simp: crawlWebsite_excl_def)
  next
    case False
    with assms Some
    have "crawl_loop_excl A net maxUrls maxDepth (exclude_set A excludeUrls)
            \<lparr>queue = [\<lparr>url = n, depth = 0\<rparr>], visited = {}, urls = [], trace = []\<rparr> = Some (r, t)"
      by (simp add: crawlWebsite_excl_def)
    then show ?thesis
      by (rule crawl_loop_excl_avoids [rotated]) (simp add: avoids_def)
  qed
qed

text \<open>
  Claim C1, as the code has it. In the scan route that takes \<open>excludeUrls\<close>, the exclude
  set holds the canonical form of every entry (the entry with \<open>https://\<close> in front when
  it does not start with \<open>http\<close>, normalised once). With any \<open>maxUrls\<close> other than
  \<open>Infinity\<close>, which the handler refuses, the crawl returns or throws; and whenever it
  does, no member of the exclude set was requested, no member had its links extracted,
  and no member is in the returned list.
\<close>

theorem excluded_canonical_never_touched:
  assumes "e \<in> set excludeUrls"
    and "normalizeUrl A (with_scheme e) = Some n"
    and "n \<noteq> []"
  shows "(maxUrls \<noteq> Infinity \<longrightarrow> crawlWebsite_excl A net startUrl maxUrls maxDepth excludeUrls \<noteq> None)
       \<and> (\<forall>r t. crawlWebsite_excl A net startUrl maxUrls maxDepth excludeUrls = Some (r, t) \<longrightarrow>
             Fetched n \<notin> set t \<and> Expanded n \<notin> set t \<and> (\<forall>us. r = Returned us \<longrightarrow> n \<notin> url ` set us))"
proof (intro conjI allI impI)
  assume "maxUrls \<noteq> Infinity"
  then show "crawlWebsite_excl A net startUrl maxUrls maxDepth excludeUrls \<noteq> None"
    by (rule crawlWebsite_excl_returns)
next
  fix r t
  assume run: "crawlWebsite_excl A net startUrl maxUrls maxDepth excludeUrls = Some (r, t)"
  have n: "n \<in> exclude_set A excludeUrls"
    using assms by (auto simp: exclude_set_iff)
  from crawlWebsite_excl_avoids [OF run]
  have t: "\<forall>ev \<in> set t. event_url ev \<notin> exclude_set A excludeUrls"
    and us: "\<forall>us. r = Returned us \<longrightarrow> (\<forall>x \<in> set us. url x \<notin> exclude_set A excludeUrls)"
    by (simp_all add: list_all_iff)
  from t n show "Fetched n \<notin> set t" and "Expanded n \<notin> set t" by force+
  show "n \<notin> url ` set us" if "r = Returned us" for us
    using us n that by auto
qed

theorem excluded_canonical_never_touched_witness:
  "''example.edu/a#x'' \<in> set [''example.edu/a#x'']
   \<and> normalizeUrl plain_urls (with_scheme ''example.edu/a#x'') = Some ''https://example.edu/a''
   \<and> ''https://example.edu/a'' \<noteq> []
   \<and> crawlWebsite_excl plain_urls example_site ''https://example.edu'' (Finite 200) (Finite 1) [''example.edu/a#x''] =
       Some (Returned [\<lparr>url = ''https://example.edu'', depth = 0\<rparr>,
                       \<lparr>url = ''https://www.example.edu/b'', depth = 1\<rparr>],
             [Fetched ''https://example.edu'', Expanded ''https://example.edu''])
   \<and> Fetched ''https://example.edu/a'' \<notin> set [Fetched ''https://example.edu'', Expanded ''https://example.edu'']
   \<and> Expanded ''https://example.edu/a'' \<notin> set [Fetched ''https://example.edu'', Expanded ''https://example.edu'']
   \<and> ''https://example.edu/a'' \<notin> url ` set [\<lparr>url = ''https://example.edu'', depth = 0\<rparr>,
                                               \<lparr>url = ''https://www.example.edu/b'', depth = 1\<rparr>]"
proof -
  have e: "''example.edu/a#x'' \<in> set [''example.edu/a#x'']" by simp
  have n: "normalizeUrl plain_urls (with_scheme ''example.edu/a#x'') = Some ''https://example.edu/a''"
    by code_simp
  have ne: "''https://example.edu/a'' \<noteq> []" by simp
  have run: "crawlWebsite_excl plain_urls example_site ''https://example.edu'' (Finite 200) (Finite 1) [''example.edu/a#x''] =
       Some (Returned [\<lparr>url = ''https://example.edu'', depth = 0\<rparr>,
                       \<lparr>url = ''https://www.example.edu/b'', depth = 1\<rparr>],
             [Fetched ''https://example.edu'', Expanded ''https://example.edu''])"
    by code_simp
  from excluded_canonical_never_touched [OF e n ne, of "Finite 200" example_site "''https://example.edu''" "Finite 1"]
    run
  have "Fetched ''https://example.edu/a'' \<notin> set [Fetched ''https://example.edu'', Expanded ''https://example.edu'']
      \<and> Expanded ''https://example.edu/a'' \<notin> set [Fetched ''https://example.edu'', Expanded ''https://example.edu'']
      \<and> ''https://example.edu/a'' \<notin> url ` set [\<lparr>url = ''https://example.edu'', depth = 0\<rparr>,
                                               \<lparr>url = ''https://www.example.edu/b'', depth = 1\<rparr>]"
    by blast
  with e n ne run show ?thesis by blast
qed

text \<open>
  The claim as the specification words it speaks of the entries of \<open>excludeUrls\<close>
  themselves, and of every crawl. The route of \<open>src/app/api/website/scan/route.ts\<close>
  does not read \<open>excludeUrls\<close>: it returns a start URL that the request excludes. The
  route that reads it compares canonical forms, and a canonical form that still ends in
  a slash is not its own canonical form: the entry \<open>https://example.edu/a/\<close> excludes
  \<open>https://example.edu/a\<close>, and the crawl from \<open>https://example.edu/a///\<close> requests
  and returns \<open>https://example.edu/a/\<close>.
\<close>

theorem excluded_url_crawled_counterexample:
  "scan_POST plain_urls offline
     (Some \<lparr>body_url = Some (JStr ''https://example.edu''), body_maxUrls = Some (Reads (Finite 1)),
            body_maxDepth = Some (Reads (Finite 5)),
            body_excludeUrls = Some (JArr [JStr ''https://example.edu''])\<rparr>)
     = Some (Scan_success [\<lparr>url = ''https://example.edu'', depth = 0\<rparr>] 1, [])
   \<and> crawlWebsite_excl plain_urls offline ''https://example.edu/a///'' (Finite 2) (Finite 5) [''https://example.edu/a/'']
     = Some (Returned [\<lparr>url = ''https://example.edu/a/'', depth = 0\<rparr>], [Fetched ''https://example.edu/a/''])"
  by code_simp

subsection \<open>A failed fetch\<close>












section \<open>Properties of the analyze route\<close>

lemma classify_loop_length:
  "length (classify_loop E k j snippets fs) = length fs + length snippets"
  by (induction snippets arbitrary: j fs) auto

text \<open>Whether the page of the \<open>k\<close>-th entry is fetched and has a snippet.\<close>

definition page_has_snippets :: "analyze_env \<Rightarrow> nat \<Rightarrow> json \<Rightarrow> bool" where
  "page_has_snippets E k u =
     (case fetchPageContent (env_net E k u) of
        None \<Rightarrow> False
      | Some pageContent \<Rightarrow> findLegacySnippets (page_html pageContent) (page_text pageContent) \<noteq> [])"

lemma analyze_url_None:
  "analyze_url E keywords workStreamAreas k u = None \<longleftrightarrow>
     page_has_snippets E k u \<and> (hint_throws E workStreamAreas \<or> hint_throws E keywords)"
  by (auto simp: analyze_url_def page_has_snippets_def Let_def split: option.splits)

lemma analyze_url_consistent:
  assumes "analyze_url E keywords workStreamAreas k u = Some r"
  shows "(findings r = []) = (\<not> hasLegacyReferences r)"
proof -
  have "classify_loop E k 0 snippets [] \<noteq> []" if "snippets \<noteq> []" for snippets
    using classify_loop_length [of E k 0 snippets "[]"] that by (cases "classify_loop E k 0 snippets []") auto
  with assms show ?thesis
    by (auto simp: analyze_url_def Let_def split: option.splits if_splits)
qed

lemma analyze_url_url:
  "analyze_url E keywords workStreamAreas k u = Some r \<Longrightarrow> result_url r = u"
  by (auto simp: analyze_url_def Let_def split: option.splits if_splits)

lemma analyze_url_failed:
  "analyze_url E keywords workStreamAreas k u = Some r \<Longrightarrow> fetchPageContent (env_net E k u) = None \<Longrightarrow>
     pageTitle r = [] \<and> \<not> hasLegacyReferences r \<and> findings r = []"
  by (auto simp: analyze_url_def)

text \<open>
  The loop over the URLs returns a list exactly when no round throws, and the list then
  has the result of every round, in order.
\<close>

lemma analyze_loop_Some:
  "analyze_loop E keywords workStreamAreas k us acc = Some results \<Longrightarrow>
     \<exists>rs. results = acc @ rs \<and> length rs = length us
          \<and> (\<forall>i < length us. analyze_url E keywords workStreamAreas (k + i) (us ! i) = Some (rs ! i))"
proof (induction us arbitrary: k acc)
  case Nil
  then show ?case by simp
next
  case (Cons u us)
  from Cons.prems obtain r where r: "analyze_url E keywords workStreamAreas k u = Some r"
    and rest: "analyze_loop E keywords workStreamAreas (Suc k) us (acc @ [r]) = Some results"
    by (auto split: option.splits)
  from Cons.IH [OF rest] obtain rs where rs: "results = (acc @ [r]) @ rs" "length rs = length us"
    "\<forall>i < length us. analyze_url E keywords workStreamAreas (Suc k + i) (us ! i) = Some (rs ! i)"
    by blast
  have "\<forall>i < length (u # us). analyze_url E keywords workStreamAreas (k + i) ((u # us) ! i) = Some ((r # rs) ! i)"
  proof (intro allI impI)
    fix i assume "i < length (u # us)"
    then show "analyze_url E keywords workStreamAreas (k + i) ((u # us) ! i) = Some ((r # rs) ! i)"
      using r rs(3) by (cases i) auto
  qed
  with rs(1,2) show ?case by (intro exI [of _ "r # rs"]) simp
qed

lemma analyze_loop_returns:
  "\<forall>i < length us. analyze_url E keywords workStreamAreas (k + i) (us ! i) \<noteq> None \<Longrightarrow>
     analyze_loop E keywords workStreamAreas k us acc \<noteq> None"
proof (induction us arbitrary: k acc)
  case Nil
  then show ?case by simp
next
  case (Cons u us)
  from Cons.prems [rule_format, of 0] obtain r where r: "analyze_url E keywords workStreamAreas k u = Some r"
    by auto
  have "\<forall>i < length us. analyze_url E keywords workStreamAreas (Suc k + i) (us ! i) \<noteq> None"
  proof (intro allI impI)
    fix i assume "i < length us"
    with Cons.prems [rule_format, of "Suc i"]
    show "analyze_url E keywords workStreamAreas (Suc k + i) (us ! i) \<noteq> None" by simp
  qed
  from Cons.IH [OF this] r show ?case by simp
qed

lemma analyze_loop_throws:
  assumes "i < length us" and "analyze_url E keywords workStreamAreas (k + i) (us ! i) = None"
  shows "analyze_loop E keywords workStreamAreas k us acc = None"
proof (rule ccontr)
  assume "analyze_loop E keywords workStreamAreas k us acc \<noteq> None"
  then obtain results where "analyze_loop E keywords workStreamAreas k us acc = Some results" by auto
  from analyze_loop_Some [OF this] assms show False by auto
qed

text \<open>When the handler reaches the loop over the URLs.\<close>

lemma analyze_POST_loop:
  assumes "member body ''urls'' = Some (JArr us)" and "us \<noteq> []" and "length us \<le> 500"
  shows "analyze_POST E (Some body) =
     (case analyze_loop E (hint_or_default body ''keywords'') (hint_or_default body ''workStreamAreas'') 0 us [] of
        None \<Rightarrow> Analyze_server_error
      | Some results \<Rightarrow> Analyze_success results)"
proof -
  from assms(1) have "body \<noteq> JNull" by (auto simp: member_def)
  with assms show ?thesis by (simp add: analyze_POST_def Let_def)
qed

lemma analyze_POST_success:
  assumes "analyze_POST E request = Analyze_success results"
  obtains body us where "request = Some body" and "member body ''urls'' = Some (JArr us)"
    and "analyze_loop E (hint_or_default body ''keywords'') (hint_or_default body ''workStreamAreas'') 0 us []
           = Some results"
  using assms
  by (auto simp: analyze_POST_def Let_def split: option.splits if_splits json.splits)

text \<open>An environment and a request for concrete runs.\<close>

definition example_J :: "string \<Rightarrow> string + (string \<times> json) list" where
  "example_J s =
     (if s = ''{\"confidence\": \"high\"}'' then Inr [(''confidence'', JStr ''high'')]
      else Inl ''Unexpected token in JSON'')"

definition example_pages :: "nat \<Rightarrow> json \<Rightarrow> http_outcome" where
  "example_pages k u =
     (if u = JStr ''https://example.edu/portal''
      then Response 200 (Text ''<title>Portal</title><p>Use Colleague, the student records system, to enrol.</p>'')
      else if u = JStr ''https://example.edu/about''
      then Response 200 (Text ''<title>About</title><p>Ask a colleague.</p>'')
      else No_response)"

definition example_api :: "nat \<Rightarrow> nat \<Rightarrow> openai_outcome" where
  "example_api k j = Api_content (Some ''I cannot answer that.'')"

text \<open>
  No request of the examples has an object for a hint, so that \<open>env_above_zero\<close> is
  never asked.
\<close>

definition example_env :: analyze_env where
  "example_env =
     \<lparr>env_J = example_J, env_key = Some ''sk-test'', env_net = example_pages, env_api = example_api,
      env_above_zero = (\<lambda>l. False)\<rparr>"

definition example_urls :: "json list" where
  "example_urls =
     [JStr ''https://example.edu/portal'', JStr ''https://example.edu/about'', JStr ''https://example.edu/gone'']"

definition example_body :: json where
  "example_body = JObj [(''urls'', JArr example_urls), (''keywords'', JArr [JStr ''enrolment''])]"

definition example_results :: "analysis_result list" where
  "example_results =
     [\<lparr>result_url = JStr ''https://example.edu/portal'', pageTitle = ''Portal'', hasLegacyReferences = True,
       findings =
         [\<lparr>html_context = ''Portal Use Colleague, the student records system, to enrol.'',
           primary_audience = JStr ''mixed/other'',
           task_category = JStr ''generic_system_reference'',
           reference_type = JStr ''informational_reference'',
           workday_feature = JStr ''Workday - unified cloud-based system'',
           proposed_replacement = JStr ''Portal Use Workday, the student records system, to enrol.'',
           suggested_keywords = JArr [JStr ''Workday''],
           confidence = ''low'',
           finding_notes = Some (JStr ''AI response could not be parsed'')\<rparr>]\<rparr>,
      \<lparr>result_url = JStr ''https://example.edu/about'', pageTitle = ''About'',
       hasLegacyReferences = False, findings = []\<rparr>,
      \<lparr>result_url = JStr ''https://example.edu/gone'', pageTitle = [],
       hasLegacyReferences = False, findings = []\<rparr>]"

lemma fetchPageContent_eval:
  assumes "st < 500" and "d \<noteq> []"
    and "trim (collapse_spaces (strip_tags (remove_blocks ''style'' (remove_blocks ''script'' d)))) = t"
    and "length t \<le> 30000"
    and "(case title_match d of Some x \<Rightarrow> trim x | None \<Rightarrow> []) = ti"
  shows "fetchPageContent (Response st (Text d)) = Some \<lparr>page_html = d, page_text = t, page_title = ti\<rparr>"
  using assms by (simp add: fetchPageContent_def axios_get_def validateStatus_def)

lemma example_fetch_portal:
  "fetchPageContent (example_pages k (JStr ''https://example.edu/portal''))
      = Some \<lparr>page_html = ''<title>Portal</title><p>Use Colleague, the student records system, to enrol.</p>'',
               page_text = ''Portal Use Colleague, the student records system, to enrol.'',
               page_title = ''Portal''\<rparr>"
  unfolding example_pages_def
proof (simp, rule fetchPageContent_eval)
  show "trim (collapse_spaces (strip_tags (remove_blocks ''style'' (remove_blocks ''script'' ''<title>Portal</title><p>Use Colleague, the student records system, to enrol.</p>'')))) = ''Portal Use Colleague, the student records system, to enrol.''"
    by code_simp
  show "(case title_match ''<title>Portal</title><p>Use Colleague, the student records system, to enrol.</p>'' of Some x \<Rightarrow> trim x | None \<Rightarrow> []) = ''Portal''"
    by code_simp
qed simp_all

lemma example_fetch_about:
  "fetchPageContent (example_pages k (JStr ''https://example.edu/about''))
      = Some \<lparr>page_html = ''<title>About</title><p>Ask a colleague.</p>'',
               page_text = ''About Ask a colleague.'',
               page_title = ''About''\<rparr>"
  unfolding example_pages_def
proof (simp, rule fetchPageContent_eval)
  show "trim (collapse_spaces (strip_tags (remove_blocks ''style'' (remove_blocks ''script'' ''<title>About</title><p>Ask a colleague.</p>'')))) = ''About Ask a colleague.''"
    by code_simp
  show "(case title_match ''<title>About</title><p>Ask a colleague.</p>'' of Some x \<Rightarrow> trim x | None \<Rightarrow> []) = ''About''"
    by code_simp
qed simp_all

lemma example_fetch_gone:
  "fetchPageContent (example_pages k (JStr ''https://example.edu/gone'')) = None"
  by (simp add: example_pages_def fetchPageContent_def axios_get_def)

lemma example_snippets_portal:
  "findLegacySnippets ''<title>Portal</title><p>Use Colleague, the student records system, to enrol.</p>''
               ''Portal Use Colleague, the student records system, to enrol.''
      = [\<lparr>snippet = ''Portal Use Colleague, the student records system, to enrol.'', offset = 11\<rparr>]"
  by code_simp

lemma example_snippets_about:
  "findLegacySnippets ''<title>About</title><p>Ask a colleague.</p>'' ''About Ask a colleague.'' = []"
  by code_simp

lemma example_classify:
  "classify example_J ''Portal Use Colleague, the student records system, to enrol.''
              (chatCompletion (Some ''sk-test'') (example_api k j))
      = \<lparr>html_context = ''Portal Use Colleague, the student records system, to enrol.'',
           primary_audience = JStr ''mixed/other'',
           task_category = JStr ''generic_system_reference'',
           reference_type = JStr ''informational_reference'',
           workday_feature = JStr ''Workday - unified cloud-based system'',
           proposed_replacement = JStr ''Portal Use Workday, the student records system, to enrol.'',
           suggested_keywords = JArr [JStr ''Workday''],
           confidence = ''low'',
           finding_notes = Some (JStr ''AI response could not be parsed'')\<rparr>"
  by code_simp

lemma example_run: "analyze_POST example_env (Some example_body) = Analyze_success example_results"
  by (simp add: analyze_POST_def example_body_def example_urls_def example_results_def analyze_url_def
        example_env_def member_def hint_or_default_def hint_throws_def
        example_fetch_portal example_fetch_about example_fetch_gone
        example_snippets_portal example_snippets_about example_classify)

subsection \<open>Findings and the flag\<close>

text \<open>
  Claim C6. In every result of a successful analyze request, the list of findings is
  empty exactly when \<open>hasLegacyReferences\<close> is false.
\<close>

theorem findings_empty_iff_no_legacy_references:
  "analyze_POST E request = Analyze_success results \<Longrightarrow>
     \<forall>r \<in> set results. (findings r = []) = (\<not> hasLegacyReferences r)"
proof
  fix r
  assume ok: "analyze_POST E request = Analyze_success results" and r: "r \<in> set results"
  from ok obtain body us where
    loop: "analyze_loop E (hint_or_default body ''keywords'') (hint_or_default body ''workStreamAreas'') 0 us []
             = Some results"
    by (rule analyze_POST_success)
  from analyze_loop_Some [OF loop] have len: "length results = length us"
    and each: "\<forall>i < length us.
        analyze_url E (hint_or_default body ''keywords'') (hint_or_default body ''workStreamAreas'') i (us ! i)
          = Some (results ! i)"
    by auto
  from r obtain i where "i < length results" and "results ! i = r" by (auto simp: in_set_conv_nth)
  with len each
  have "analyze_url E (hint_or_default body ''keywords'') (hint_or_default body ''workStreamAreas'') i (us ! i) = Some r"
    by auto
  then show "(findings r = []) = (\<not> hasLegacyReferences r)" by (rule analyze_url_consistent)
qed

theorem findings_empty_iff_no_legacy_references_witness:
  "analyze_POST example_env (Some example_body) = Analyze_success example_results
   \<and> list_all (\<lambda>r. (findings r = []) = (\<not> hasLegacyReferences r)) example_results"
  using findings_empty_iff_no_legacy_references [OF example_run] example_run
  by (simp add: list_all_iff)

subsection \<open>One result per URL\<close>

text \<open>
  Claim C10, as the code has it. Take a request whose \<open>urls\<close> is an array of 1 to 500
  entries. When one of the two hints throws and the page of some entry is fetched and has
  a snippet, the request is answered with status 500 and no result. In every other case
  it succeeds with exactly one result per entry, in the order of the array; the result
  of an entry whose page fetch returns nothing has an empty title, the flag false and no
  findings.
\<close>

theorem one_result_per_url_in_order:
  assumes "member body ''urls'' = Some (JArr us)" and "us \<noteq> []" and "length us \<le> 500"
  shows "if (hint_throws E (hint_or_default body ''workStreamAreas'')
             \<or> hint_throws E (hint_or_default body ''keywords''))
            \<and> (\<exists>i < length us. page_has_snippets E i (us ! i))
         then analyze_POST E (Some body) = Analyze_server_error
         else \<exists>results. analyze_POST E (Some body) = Analyze_success results
           \<and> length results = length us
           \<and> (\<forall>i < length us.
                 result_url (results ! i) = us ! i
                 \<and> (fetchPageContent (env_net E i (us ! i)) = None \<longrightarrow>
                      pageTitle (results ! i) = [] \<and> \<not> hasLegacyReferences (results ! i)
                      \<and> findings (results ! i) = []))"
proof -
  let ?kw = "hint_or_default body ''keywords''" and ?ws = "hint_or_default body ''workStreamAreas''"
  let ?throws = "(hint_throws E ?ws \<or> hint_throws E ?kw) \<and> (\<exists>i < length us. page_has_snippets E i (us ! i))"
  note post = analyze_POST_loop [OF assms, of E]
  show ?thesis
  proof (cases ?throws)
    case True
    then obtain i where "i < length us" and "analyze_url E ?kw ?ws (0 + i) (us ! i) = None"
      by (auto simp: analyze_url_None)
    then have "analyze_loop E ?kw ?ws 0 us [] = None" by (rule analyze_loop_throws)
    with post True show ?thesis by simp
  next
    case False
    then have "\<forall>i < length us. analyze_url E ?kw ?ws (0 + i) (us ! i) \<noteq> None"
      by (auto simp: analyze_url_None)
    from analyze_loop_returns [OF this] obtain results
      where loop: "analyze_loop E ?kw ?ws 0 us [] = Some results" by auto
    from analyze_loop_Some [OF loop] have len: "length results = length us"
      and each: "\<forall>i < length us. analyze_url E ?kw ?ws i (us ! i) = Some (results ! i)"
      by auto
    have "result_url (results ! i) = us ! i
        \<and> (fetchPageContent (env_net E i (us ! i)) = None \<longrightarrow>
              pageTitle (results ! i) = [] \<and> \<not> hasLegacyReferences (results ! i)
              \<and> findings (results ! i) = [])" if "i < length us" for i
      using each that by (auto dest: analyze_url_url analyze_url_failed)
    with post loop len False show ?thesis by auto
  qed
qed

theorem one_result_per_url_in_order_witness:
  "member example_body ''urls'' = Some (JArr example_urls)
   \<and> example_urls \<noteq> [] \<and> length example_urls \<le> 500
   \<and> \<not> hint_throws example_env (hint_or_default example_body ''workStreamAreas'')
   \<and> \<not> hint_throws example_env (hint_or_default example_body ''keywords'')
   \<and> analyze_POST example_env (Some example_body) = Analyze_success example_results
   \<and> length example_results = length example_urls
   \<and> map result_url example_results = example_urls
   \<and> fetchPageContent (env_net example_env 2 (example_urls ! 2)) = None
   \<and> pageTitle (example_results ! 2) = [] \<and> \<not> hasLegacyReferences (example_results ! 2)
   \<and> findings (example_results ! 2) = []"
proof -
  have m: "member example_body ''urls'' = Some (JArr example_urls)"
    by (simp add: example_body_def member_def)
  have ne: "example_urls \<noteq> []" and le: "length example_urls \<le> 500"
    by (simp_all add: example_urls_def)
  have h: "\<not> hint_throws example_env (hint_or_default example_body ''workStreamAreas'')"
      "\<not> hint_throws example_env (hint_or_default example_body ''keywords'')"
    by (simp_all add: example_body_def hint_or_default_def member_def hint_throws_def)
  from one_result_per_url_in_order [OF m ne le, of example_env] h example_run
  have "length example_results = length example_urls" by auto
  moreover have "map result_url example_results = example_urls"
    by (simp add: example_results_def example_urls_def)
  moreover have "fetchPageContent (env_net example_env 2 (example_urls ! 2)) = None"
    by (simp add: example_env_def example_urls_def example_fetch_gone)
  moreover have "pageTitle (example_results ! 2) = [] \<and> \<not> hasLegacyReferences (example_results ! 2)
      \<and> findings (example_results ! 2) = []"
    by (simp add: example_results_def)
  ultimately show ?thesis using m ne le h example_run by simp
qed

text \<open>
  The claim as the specification words it promises one result per URL for every list of
  1 to 500 URLs. The hints of the prompt are built outside the \<open>try\<close> of the loop over
  the snippets: with \<open>keywords\<close> a text instead of an array, the first page that has a
  snippet makes \<open>keywords.join\<close> throw, and the request of one URL is answered with
  status 500 and no result.
\<close>

theorem hint_text_no_results_counterexample:
  "analyze_POST example_env
     (Some (JObj [(''urls'', JArr [JStr ''https://example.edu/portal'']), (''keywords'', JStr ''Workday'')]))
   = Analyze_server_error"
  by (simp add: analyze_POST_def analyze_url_def example_env_def member_def hint_or_default_def
        hint_throws_def example_fetch_portal example_snippets_portal)

subsection \<open>The fallback of the classifier\<close>

text \<open>
  A classification fails when the completion call throws, when the response holds no
  brace-delimited text, and when \<open>JSON.parse\<close> throws on that text. \<open>failure_message\<close>
  is the message of the \<open>Error\<close> that the \<open>catch\<close> clause then sees, if it sees one.
\<close>

definition failed :: "(string \<Rightarrow> string + (string \<times> json) list) \<Rightarrow> thrown + string \<Rightarrow> bool" where
  "failed J outcome =
     (case outcome of
        Inl err \<Rightarrow> True
      | Inr response \<Rightarrow>
          (case json_match response of None \<Rightarrow> True | Some jsonMatch \<Rightarrow> isl (J jsonMatch)))"

definition failure_message :: "(string \<Rightarrow> string + (string \<times> json) list) \<Rightarrow> thrown + string \<Rightarrow> string option" where
  "failure_message J outcome =
     (case outcome of
        Inl (Error_object message) \<Rightarrow> Some message
      | Inl Other_value \<Rightarrow> None
      | Inr response \<Rightarrow>
          (case json_match response of
             None \<Rightarrow> None
           | Some jsonMatch \<Rightarrow> (case J jsonMatch of Inl message \<Rightarrow> Some message | Inr parsed \<Rightarrow> None)))"

lemma analyze_POST_server_error:
  assumes "analyze_POST E request = Analyze_server_error"
  shows "request = None \<or> request = Some JNull
       \<or> (\<exists>body. request = Some body
            \<and> (hint_throws E (hint_or_default body ''workStreamAreas'')
                 \<or> hint_throws E (hint_or_default body ''keywords'')))"
proof (cases request)
  case None
  then show ?thesis by simp
next
  case (Some body)
  show ?thesis
  proof (cases "body = JNull")
    case True
    with Some show ?thesis by simp
  next
    case False
    with assms Some obtain us where
      "analyze_loop E (hint_or_default body ''keywords'') (hint_or_default body ''workStreamAreas'') 0 us [] = None"
      by (auto simp: analyze_POST_def Let_def split: option.splits if_splits json.splits)
    with analyze_loop_returns [of us E "hint_or_default body ''keywords''" "hint_or_default body ''workStreamAreas''" 0 "[]"]
    obtain i where "analyze_url E (hint_or_default body ''keywords'') (hint_or_default body ''workStreamAreas'') (0 + i) (us ! i) = None"
      by blast
    with Some show ?thesis by (auto simp: analyze_url_None)
  qed
qed

text \<open>
  Claim C4, as the code has it. When a classification fails, the finding has confidence
  \<open>low\<close> and a note: the message of the error thrown, the fixed text \<open>Analysis failed\<close>
  for a thrown value that is no \<open>Error\<close>, or the fixed text of the \<open>else\<close> branch. The
  note is empty exactly when the error thrown has the empty message. Whatever the
  completions do, the loop over the snippets adds one finding per snippet, and the
  request is answered with status 500 only when it has no JSON body, when its body is
  \<open>null\<close>, or when one of its hints throws.
\<close>

theorem failed_classification_low_confidence_and_note:
  assumes "failed J outcome"
  shows "confidence (classify J snip outcome) = ''low''
       \<and> finding_notes (classify J snip outcome) =
           Some (JStr (case failure_message J outcome of
                         Some message \<Rightarrow> message
                       | None \<Rightarrow> if isl outcome then ''Analysis failed'' else ''AI response could not be parsed''))
       \<and> (finding_notes (classify J snip outcome) = Some (JStr []) \<longleftrightarrow> failure_message J outcome = Some [])
       \<and> length (classify_loop E k j snippets fs) = length fs + length snippets
       \<and> (analyze_POST E request = Analyze_server_error \<longrightarrow>
            request = None \<or> request = Some JNull
            \<or> (\<exists>body. request = Some body
                 \<and> (hint_throws E (hint_or_default body ''workStreamAreas'')
                      \<or> hint_throws E (hint_or_default body ''keywords''))))"
proof -
  from assms have "confidence (classify J snip outcome) = ''low''"
    by (auto simp: failed_def classify_def fallback_finding_def split: sum.splits option.splits)
  moreover from assms have nt: "finding_notes (classify J snip outcome) =
           Some (JStr (case failure_message J outcome of
                         Some message \<Rightarrow> message
                       | None \<Rightarrow> if isl outcome then ''Analysis failed'' else ''AI response could not be parsed''))"
    by (auto simp: failed_def failure_message_def classify_def fallback_finding_def
             split: sum.splits option.splits thrown.splits)
  moreover have "finding_notes (classify J snip outcome) = Some (JStr []) \<longleftrightarrow> failure_message J outcome = Some []"
    unfolding nt by (auto split: option.splits)
  moreover have "length (classify_loop E k j snippets fs) = length fs + length snippets"
    by (rule classify_loop_length)
  moreover have "analyze_POST E request = Analyze_server_error \<longrightarrow>
            request = None \<or> request = Some JNull
            \<or> (\<exists>body. request = Some body
                 \<and> (hint_throws E (hint_or_default body ''workStreamAreas'')
                      \<or> hint_throws E (hint_or_default body ''keywords'')))"
    using analyze_POST_server_error [of E request] by blast
  ultimately show ?thesis by blast
qed

theorem failed_classification_low_confidence_and_note_witness:
  "failed example_J (chatCompletion (Some ''sk-test'') (Api_rejected (Error_object ''Request timed out.'')))
   \<and> failure_message example_J (chatCompletion (Some ''sk-test'') (Api_rejected (Error_object ''Request timed out.'')))
       = Some ''Request timed out.''
   \<and> confidence (classify example_J ''Log in to CougarWeb to register.''
        (chatCompletion (Some ''sk-test'') (Api_rejected (Error_object ''Request timed out.'')))) = ''low''
   \<and> finding_notes (classify example_J ''Log in to CougarWeb to register.''
        (chatCompletion (Some ''sk-test'') (Api_rejected (Error_object ''Request timed out.''))))
       = Some (JStr ''Request timed out.'')
   \<and> failed example_J (chatCompletion None (example_api 0 0))
   \<and> finding_notes (classify example_J ''Log in to CougarWeb to register.'' (chatCompletion None (example_api 0 0)))
       = Some (JStr ''OpenAI API key must be set in .env.local (OPENAI_API_KEY=sk-proj-...)'')
   \<and> failed example_J (chatCompletion (Some ''sk-test'') (Api_content None))
   \<and> finding_notes (classify example_J ''Log in to CougarWeb to register.''
        (chatCompletion (Some ''sk-test'') (Api_content None)))
       = Some (JStr ''AI response could not be parsed'')"
proof -
  let ?o = "chatCompletion (Some ''sk-test'') (Api_rejected (Error_object ''Request timed out.''))"
  let ?k = "chatCompletion None (example_api 0 0)"
  let ?e = "chatCompletion (Some ''sk-test'') (Api_content None)"
  have o: "?o = Inl (Error_object ''Request timed out.'')" by code_simp
  have k: "?k = Inl (Error_object ''OpenAI API key must be set in .env.local (OPENAI_API_KEY=sk-proj-...)'')"
    by code_simp
  have e: "?e = Inr []" by code_simp
  have f: "failed example_J ?o" "failed example_J ?k" "failed example_J ?e"
    by (simp_all add: o k e failed_def json_match_def)
  have m: "failure_message example_J ?o = Some ''Request timed out.''"
      "failure_message example_J ?k = Some ''OpenAI API key must be set in .env.local (OPENAI_API_KEY=sk-proj-...)''"
      "failure_message example_J ?e = None"
    by (simp_all add: o k e failure_message_def json_match_def)
  note T = failed_classification_low_confidence_and_note [where J = example_J and snip = "''Log in to CougarWeb to register.''"]
  from T [OF f(1)] m(1)
  have a: "confidence (classify example_J ''Log in to CougarWeb to register.'' ?o) = ''low''"
    "finding_notes (classify example_J ''Log in to CougarWeb to register.'' ?o) = Some (JStr ''Request timed out.'')"
    by simp_all
  from T [OF f(2)] m(2)
  have b: "finding_notes (classify example_J ''Log in to CougarWeb to register.'' ?k)
       = Some (JStr ''OpenAI API key must be set in .env.local (OPENAI_API_KEY=sk-proj-...)'')"
    by simp
  from T [OF f(3)] m(3) e
  have c: "finding_notes (classify example_J ''Log in to CougarWeb to register.'' ?e)
       = Some (JStr ''AI response could not be parsed'')"
    by simp
  from f m(1) a b c show ?thesis by blast
qed

text \<open>
  The claim as the specification words it promises a non-empty note for every failure.
  The \<open>catch\<close> clause copies the message of the \<open>Error\<close> it catches, whatever it is: for
  an \<open>Error\<close> with the empty message the note is empty.
\<close>

theorem empty_error_message_empty_note_counterexample:
  "failed example_J (chatCompletion (Some ''sk-test'') (Api_rejected (Error_object [])))
   \<and> confidence (classify example_J ''Log in to CougarWeb to register.''
        (chatCompletion (Some ''sk-test'') (Api_rejected (Error_object [])))) = ''low''
   \<and> finding_notes (classify example_J ''Log in to CougarWeb to register.''
        (chatCompletion (Some ''sk-test'') (Api_rejected (Error_object [])))) = Some (JStr [])"
proof -
  have o: "chatCompletion (Some ''sk-test'') (Api_rejected (Error_object [])) = Inl (Error_object [])"
    by code_simp
  show ?thesis by (simp add: o failed_def classify_def fallback_finding_def)
qed

section \<open>Properties of the two fetchers\<close>

lemma collapse_spaces_plain:
  "c \<in> set (collapse_spaces s) \<Longrightarrow> is_space c \<Longrightarrow> c = CHR '' ''"
  by (induction s rule: collapse_spaces.induct) (auto split: if_splits)

lemma trim_subset: "set (trim s) \<subseteq> set s"
  by (auto simp: trim_def dest!: set_dropWhileD)

text \<open>
  Claim C8, as the code has it. Neither fetcher throws: what \<open>axios.get\<close> throws is
  caught, and nothing else throws. \<open>fetchPage\<close> of the scan route returns \<open>null\<close> when
  there is no response and for every status outside 200 to 299, and for a status from
  200 to 299 it returns \<open>response.data\<close>, whatever value that is. \<open>fetchPageContent\<close>
  of the analyze route returns nothing when there is no response, for every status from
  500 on, and when \<open>response.data\<close> is falsy; a response with a status below 500 and
  truthy data is content, whatever the status. The \<open>html\<close> of the content is the data,
  or the JSON text of data that is no string; its \<open>text\<close> has at most 30000 characters
  and no white space other than the plain space.
\<close>

theorem fetchers_return_content_or_nothing:
  "(out = No_response \<longrightarrow> fetchPage out = js_null \<and> fetchPageContent out = None)
   \<and> (\<forall>st d. out = Response st d \<longrightarrow>
          fetchPage out = (if 200 \<le> st \<and> st < 300 then d else js_null)
        \<and> (fetchPageContent out = None) = (500 \<le> st \<or> \<not> truthy_data d)
        \<and> (\<forall>p. fetchPageContent out = Some p \<longrightarrow>
              page_html p = html_of d \<and> length (page_text p) \<le> 30000
              \<and> (\<forall>c \<in> set (page_text p). is_space c \<longrightarrow> c = CHR '' '')))"
proof (intro conjI allI impI)
  assume "out = No_response"
  then show "fetchPage out = js_null" and "fetchPageContent out = None"
    by (simp_all add: fetchPage_def fetchPageContent_def axios_get_def)
next
  fix st d
  assume out: "out = Response st d"
  show "fetchPage out = (if 200 \<le> st \<and> st < 300 then d else js_null)"
    by (simp add: out fetchPage_def axios_get_def default_validateStatus_def)
  show "(fetchPageContent out = None) = (500 \<le> st \<or> \<not> truthy_data d)"
    by (auto simp: out fetchPageContent_def axios_get_def validateStatus_def Let_def)
  fix p
  assume p: "fetchPageContent out = Some p"
  with out have html: "page_html p = html_of d"
    and tx: "page_text p = take 30000 (trim (collapse_spaces (strip_tags
                      (remove_blocks ''style'' (remove_blocks ''script'' (html_of d))))))"
    by (auto simp: fetchPageContent_def axios_get_def Let_def split: if_splits)
  show "page_html p = html_of d" by (rule html)
  show "length (page_text p) \<le> 30000" by (simp add: tx)
  show "\<forall>c \<in> set (page_text p). is_space c \<longrightarrow> c = CHR '' ''"
  proof (intro ballI impI)
    fix c
    assume that: "c \<in> set (page_text p)" "is_space c"
    from that(1) have "c \<in> set (trim (collapse_spaces (strip_tags
                      (remove_blocks ''style'' (remove_blocks ''script'' (html_of d))))))"
      unfolding tx by (rule in_set_takeD)
    with trim_subset have "c \<in> set (collapse_spaces (strip_tags
                      (remove_blocks ''style'' (remove_blocks ''script'' (html_of d)))))"
      by blast
    then show "c = CHR '' ''" using that(2) by (rule collapse_spaces_plain)
  qed
qed

theorem fetchers_return_content_or_nothing_witness:
  "fetchPage (Response 503 (Text ''<title>Down</title>'')) = js_null
   \<and> fetchPage No_response = js_null
   \<and> fetchPageContent (Response 503 (Text ''<title>Down</title>'')) = None
   \<and> fetchPageContent (Response 200 (Value False (Some ''0'') ''0'')) = None
   \<and> fetchPage (Response 200 (Text ''<title>About</title><p>Ask a colleague.</p>''))
       = Text ''<title>About</title><p>Ask a colleague.</p>''
   \<and> fetchPageContent (Response 200 (Text ''<title>About</title><p>Ask a colleague.</p>''))
       = Some \<lparr>page_html = ''<title>About</title><p>Ask a colleague.</p>'',
                page_text = ''About Ask a colleague.'', page_title = ''About''\<rparr>
   \<and> length ''About Ask a colleague.'' \<le> 30000"
proof -
  let ?page = "''<title>About</title><p>Ask a colleague.</p>''"
  note down = fetchers_return_content_or_nothing [of "Response 503 (Text ''<title>Down</title>'')"]
  note zero = fetchers_return_content_or_nothing [of "Response 200 (Value False (Some ''0'') ''0'')"]
  note none = fetchers_return_content_or_nothing [of No_response]
  note page = fetchers_return_content_or_nothing [of "Response 200 (Text ?page)"]
  have c: "fetchPageContent (Response 200 (Text ?page))
       = Some \<lparr>page_html = ?page, page_text = ''About Ask a colleague.'', page_title = ''About''\<rparr>"
    using example_fetch_about [of 0] by (simp add: example_pages_def)
  from down have 1: "fetchPage (Response 503 (Text ''<title>Down</title>'')) = js_null"
    and 2: "fetchPageContent (Response 503 (Text ''<title>Down</title>'')) = None"
    by simp_all
  from none have 3: "fetchPage No_response = js_null" by simp
  from zero have 4: "fetchPageContent (Response 200 (Value False (Some ''0'') ''0'')) = None" by simp
  from page have 5: "fetchPage (Response 200 (Text ?page)) = Text ?page" by simp
  from page c have 6: "length ''About Ask a colleague.'' \<le> 30000" by fastforce
  from 1 2 3 4 5 6 c show ?thesis by blast
qed

text \<open>
  The claim as the specification words it treats every non-success status as no
  content, and has a fetch return page text or nothing. \<open>fetchPageContent\<close> asks axios
  to accept every status below 500, and the page of a 404 response is analysed like any
  other. \<open>fetchPage\<close> returns the object that axios has parsed from a JSON body, which is
  neither text nor \<open>null\<close>.
\<close>

theorem not_found_page_is_content_counterexample:
  "fetchPage (Response 404 (Text ''<title>Not Found</title><p>No such page.</p>'')) = js_null
   \<and> fetchPageContent (Response 404 (Text ''<title>Not Found</title><p>No such page.</p>''))
     = Some \<lparr>page_html = ''<title>Not Found</title><p>No such page.</p>'',
              page_text = ''Not Found No such page.'',
              page_title = ''Not Found''\<rparr>
   \<and> fetchPage (Response 200 (Value True (Some ''[object Object]'') ''{\"pages\":3}''))
     = Value True (Some ''[object Object]'') ''{\"pages\":3}''"
proof -
  have "fetchPage (Response 404 (Text ''<title>Not Found</title><p>No such page.</p>'')) = js_null"
    by (simp add: fetchPage_def axios_get_def default_validateStatus_def)
  moreover have "fetchPageContent (Response 404 (Text ''<title>Not Found</title><p>No such page.</p>''))
     = Some \<lparr>page_html = ''<title>Not Found</title><p>No such page.</p>'',
              page_text = ''Not Found No such page.'',
              page_title = ''Not Found''\<rparr>"
  proof (rule fetchPageContent_eval)
    show "trim (collapse_spaces (strip_tags (remove_blocks ''style'' (remove_blocks ''script'' ''<title>Not Found</title><p>No such page.</p>'')))) = ''Not Found No such page.''"
      by code_simp
    show "(case title_match ''<title>Not Found</title><p>No such page.</p>'' of Some x \<Rightarrow> trim x | None \<Rightarrow> []) = ''Not Found''"
      by code_simp
  qed simp_all
  moreover have "fetchPage (Response 200 (Value True (Some ''[object Object]'') ''{\"pages\":3}''))
     = Value True (Some ''[object Object]'') ''{\"pages\":3}''"
    by (simp add: fetchPage_def axios_get_def default_validateStatus_def)
  ultimately show ?thesis by simp
qed


section \<open>Properties of the canonical form\<close>

text \<open>
  The canonical form of the crawler is \<open>normalizeUrl\<close>: parse, drop the fragment,
  serialise, drop one trailing slash. Its properties depend on the parser and are proved
  for the model of the platform's parser on plain web addresses.
\<close>

definition opt_part :: "char \<Rightarrow> string option \<Rightarrow> string" where
  "opt_part x p = (case p of None \<Rightarrow> [] | Some r \<Rightarrow> x # r)"

lemma cut_append: "x \<notin> set a \<Longrightarrow> cut x (a @ b) = (a @ fst (cut x b), snd (cut x b))"
  by (induction a) (auto simp: cut_def)

lemma cut_opt_part: "cut x (opt_part x p) = ([], p)"
  by (cases p) (simp_all add: cut_def opt_part_def)

lemma cut_absent: "x \<notin> set a \<Longrightarrow> cut x (a @ opt_part x p) = (a, p)"
  by (simp add: cut_append cut_opt_part)

lemma cut_decomp: "cut x s = (a, p) \<Longrightarrow> s = a @ opt_part x p \<and> x \<notin> set a"
proof -
  assume c: "cut x s = (a, p)"
  then have a: "a = takeWhile (\<lambda>c. c \<noteq> x) s" by (simp add: cut_def)
  have s: "s = takeWhile (\<lambda>c. c \<noteq> x) s @ dropWhile (\<lambda>c. c \<noteq> x) s" by simp
  have "x \<notin> set a" using a by (auto dest: set_takeWhileD)
  moreover have "dropWhile (\<lambda>c. c \<noteq> x) s = opt_part x p"
  proof (cases "dropWhile (\<lambda>c. c \<noteq> x) s")
    case Nil
    with c show ?thesis by (simp add: cut_def opt_part_def)
  next
    case (Cons y r)
    then have "y = x" using hd_dropWhile [of "\<lambda>c. c \<noteq> x" s] by auto
    with c Cons show ?thesis by (auto simp: cut_def opt_part_def)
  qed
  ultimately show ?thesis using a s by metis
qed

lemma path_char_not_special: "path_char c \<Longrightarrow> c \<noteq> CHR ''?'' \<and> c \<noteq> CHR ''#''"
  by (auto simp: path_char_def is_lower_def is_upper_def is_digit_def lower_chars_def upper_chars_def digit_chars_def)

lemma query_char_not_hash: "query_char c \<Longrightarrow> c \<noteq> CHR ''#''"
  by (auto simp: query_char_def path_char_def is_lower_def is_upper_def is_digit_def lower_chars_def upper_chars_def digit_chars_def)

lemma labels_ok_chars: "labels_ok h \<Longrightarrow> c \<in> set h \<Longrightarrow> c \<noteq> CHR ''/'' \<and> c \<noteq> CHR ''?'' \<and> c \<noteq> CHR ''#''"
  by (induction h) (auto simp: is_lower_def is_digit_def lower_chars_def digit_chars_def split: if_splits)

lemma plain_host_chars: "plain_host h \<Longrightarrow> c \<in> set h \<Longrightarrow> c \<noteq> CHR ''/'' \<and> c \<noteq> CHR ''?'' \<and> c \<noteq> CHR ''#''"
  using labels_ok_chars [of "CHR ''.'' # h" c] by (simp add: plain_host_def)

lemma plain_host_nonempty: "plain_host h \<Longrightarrow> h \<noteq> []"
  by (auto simp: plain_host_def)

text \<open>The text of a URL from its parts; the path may be empty here.\<close>

definition serial :: "string \<Rightarrow> string \<Rightarrow> string \<Rightarrow> string option \<Rightarrow> string option \<Rightarrow> string" where
  "serial proto host path q f = proto @ ''//'' @ host @ path @ opt_part CHR ''?'' q @ opt_part CHR ''#'' f"

definition plain_parts :: "string \<Rightarrow> string \<Rightarrow> string \<Rightarrow> string option \<Rightarrow> string option \<Rightarrow> bool" where
  "plain_parts proto host path q f =
     ((proto = ''https:'' \<or> proto = ''http:'') \<and> plain_host host
      \<and> (path = [] \<or> hd path = CHR ''/'') \<and> plain_path path \<and> plain_opt q \<and> plain_opt f)"

lemma scheme_rest_serial:
  "proto = ''https:'' \<or> proto = ''http:'' \<Longrightarrow> scheme_rest (proto @ ''//'' @ r) = Some (proto, r)"
  by (auto simp: scheme_rest_def)

lemma host_path_split:
  assumes "plain_host host" and "path = [] \<or> hd path = CHR ''/''"
  shows "takeWhile (\<lambda>c. c \<noteq> CHR ''/'') (host @ path) = host"
    and "dropWhile (\<lambda>c. c \<noteq> CHR ''/'') (host @ path) = path"
proof -
  have h: "\<And>c. c \<in> set host \<Longrightarrow> c \<noteq> CHR ''/''" using plain_host_chars [OF assms(1)] by blast
  from assms(2) have p: "takeWhile (\<lambda>c. c \<noteq> CHR ''/'') path = []" "dropWhile (\<lambda>c. c \<noteq> CHR ''/'') path = path"
    by (cases path; auto)+
  show "takeWhile (\<lambda>c. c \<noteq> CHR ''/'') (host @ path) = host"
    using h p by (simp add: takeWhile_append2)
  show "dropWhile (\<lambda>c. c \<noteq> CHR ''/'') (host @ path) = path"
    using h p by (simp add: dropWhile_append2)
qed

lemma parse_url_serial:
  assumes "plain_parts proto host path q f"
  shows "parse_url (serial proto host path q f)
         = Some \<lparr>protocol = proto, hostname = host, pathname = (if path = [] then ''/'' else path),
                 query = q, fragment = f\<rparr>"
proof -
  from assms have proto: "proto = ''https:'' \<or> proto = ''http:''" and host: "plain_host host"
    and path: "path = [] \<or> hd path = CHR ''/''" and pp: "plain_path path"
    and pq: "plain_opt q" and pf: "plain_opt f"
    by (simp_all add: plain_parts_def)
  have no_hash: "CHR ''#'' \<notin> set (host @ path @ opt_part CHR ''?'' q)"
    using plain_host_chars [OF host] pp pq
    by (auto simp: plain_path_def plain_opt_def opt_part_def list_all_iff
             dest: path_char_not_special query_char_not_hash split: option.splits)
  have no_q: "CHR ''?'' \<notin> set (host @ path)"
    using plain_host_chars [OF host] pp
    by (auto simp: plain_path_def list_all_iff dest: path_char_not_special)
  have c1: "cut CHR ''#'' (host @ path @ opt_part CHR ''?'' q @ opt_part CHR ''#'' f)
            = (host @ path @ opt_part CHR ''?'' q, f)"
    using cut_absent [OF no_hash, of f] by simp
  have c2: "cut CHR ''?'' (host @ path @ opt_part CHR ''?'' q) = (host @ path, q)"
    using cut_absent [OF no_q, of q] by simp
  show ?thesis
    unfolding serial_def parse_url_def scheme_rest_serial [OF proto]
    by (simp add: c1 c2 host_path_split [OF host path] host pp pq pf del: append_assoc)
qed

lemma scheme_rest_decomp:
  "scheme_rest u = Some (proto, rest) \<Longrightarrow> (proto = ''https:'' \<or> proto = ''http:'') \<and> u = proto @ ''//'' @ rest"
  by (auto simp: scheme_rest_def prefix_def split: if_splits)

lemma parse_url_decomp:
  assumes "parse_url u = Some U"
  shows "\<exists>path. u = serial (protocol U) (hostname U) path (query U) (fragment U)
           \<and> plain_parts (protocol U) (hostname U) path (query U) (fragment U)
           \<and> pathname U = (if path = [] then ''/'' else path)"
proof -
  from assms obtain proto rest where sr: "scheme_rest u = Some (proto, rest)"
    by (auto simp: parse_url_def split: option.splits)
  obtain bh f where c1: "cut CHR ''#'' rest = (bh, f)" by (cases "cut CHR ''#'' rest")
  obtain bq q where c2: "cut CHR ''?'' bh = (bq, q)" by (cases "cut CHR ''?'' bh")
  define host where "host = takeWhile (\<lambda>c. c \<noteq> CHR ''/'') bq"
  define path where "path = dropWhile (\<lambda>c. c \<noteq> CHR ''/'') bq"
  have p: "parse_url u =
      (if plain_host host \<and> plain_path path \<and> plain_opt q \<and> plain_opt f
       then Some \<lparr>protocol = proto, hostname = host, pathname = (if path = [] then ''/'' else path),
                  query = q, fragment = f\<rparr>
       else None)"
    by (simp only: parse_url_def sr c1 c2 host_def path_def Let_def option.case prod.case)
  with assms have ok: "plain_host host \<and> plain_path path \<and> plain_opt q \<and> plain_opt f"
    by (cases "plain_host host \<and> plain_path path \<and> plain_opt q \<and> plain_opt f") simp_all
  with p assms have U: "U = \<lparr>protocol = proto, hostname = host, pathname = (if path = [] then ''/'' else path),
                 query = q, fragment = f\<rparr>"
    by simp
  have hd: "path = [] \<or> hd path = CHR ''/''"
    unfolding path_def using hd_dropWhile [of "\<lambda>c. c \<noteq> CHR ''/''" bq] by auto
  have bq: "bq = host @ path" by (simp add: host_def path_def)
  from scheme_rest_decomp [OF sr] have proto: "proto = ''https:'' \<or> proto = ''http:''"
    and u: "u = proto @ ''//'' @ rest" by simp_all
  from cut_decomp [OF c1] have rest: "rest = bh @ opt_part CHR ''#'' f" by simp
  from cut_decomp [OF c2] have bh: "bh = bq @ opt_part CHR ''?'' q" by simp
  have "u = serial proto host path q f"
    by (simp add: serial_def u rest bh bq)
  moreover have "plain_parts proto host path q f"
    using ok hd proto by (simp add: plain_parts_def)
  ultimately show ?thesis by (intro exI [of _ path]) (simp add: U)
qed

lemma href_serial: "href U = serial (protocol U) (hostname U) (pathname U) (query U) (fragment U)"
  by (simp add: href_def serial_def opt_part_def)

lemma normalizeUrl_serial:
  assumes "plain_parts proto host path q f"
  shows "normalizeUrl plain_urls (serial proto host path q f)
         = Some (strip_trailing_slash (serial proto host (if path = [] then ''/'' else path) q None))"
  by (simp add: normalizeUrl_def plain_urls_def parse_url_serial [OF assms] href_serial)

lemma normalizeUrl_decomp:
  assumes "normalizeUrl plain_urls u = Some c"
  shows "\<exists>proto host path q f. u = serial proto host path q f \<and> plain_parts proto host path q f
           \<and> c = strip_trailing_slash (serial proto host (if path = [] then ''/'' else path) q None)"
proof -
  from assms obtain U where U: "parse_url u = Some U"
    and c: "c = strip_trailing_slash (href (U\<lparr>fragment := None\<rparr>))"
    by (auto simp: normalizeUrl_def plain_urls_def split: option.splits)
  from parse_url_decomp [OF U] obtain path where
    u: "u = serial (protocol U) (hostname U) path (query U) (fragment U)"
    and pp: "plain_parts (protocol U) (hostname U) path (query U) (fragment U)"
    and pn: "pathname U = (if path = [] then ''/'' else path)"
    by blast
  from c pn have "c = strip_trailing_slash (serial (protocol U) (hostname U) (if path = [] then ''/'' else path) (query U) None)"
    by (simp add: href_serial)
  with u pp show ?thesis by blast
qed

lemma no_dot_segment_snoc: "no_dot_segment (p @ [x]) \<Longrightarrow> no_dot_segment p"
  by (induction p rule: no_dot_segment.induct) auto

lemma no_dot_segment_slash: "no_dot_segment p \<Longrightarrow> no_dot_segment (p @ ''/'')"
  by (induction p rule: no_dot_segment.induct) auto

lemma plain_path_butlast: "plain_path p \<Longrightarrow> plain_path (butlast p)"
proof (cases p rule: rev_cases)
  case Nil
  then show ?thesis by (simp add: plain_path_def)
next
  case (snoc ys y)
  assume "plain_path p"
  with snoc show ?thesis by (auto simp: plain_path_def dest: no_dot_segment_snoc)
qed

lemma plain_path_slash: "plain_path p \<Longrightarrow> plain_path (p @ ''/'')"
  by (simp add: plain_path_def no_dot_segment_slash path_char_def)

lemma plain_host_last: "plain_host h \<Longrightarrow> last h \<noteq> CHR ''/''"
  using plain_host_chars [of h "last h"] plain_host_nonempty [of h] by auto

lemma strip_trailing_slash_fixed: "c \<noteq> [] \<Longrightarrow> (strip_trailing_slash c = c) = (last c \<noteq> CHR ''/'')"
  by (cases c rule: rev_cases) (auto simp: strip_trailing_slash_def)

lemma canonical_again:
  assumes "normalizeUrl plain_urls u = Some c"
  shows "normalizeUrl plain_urls c = Some (strip_trailing_slash c)"
proof -
  from normalizeUrl_decomp [OF assms] obtain proto host path q f where
    pp: "plain_parts proto host path q f"
    and c: "c = strip_trailing_slash (serial proto host (if path = [] then ''/'' else path) q None)"
    by blast
  define P where "P = (if path = [] then ''/'' else path)"
  from pp have proto: "proto = ''https:'' \<or> proto = ''http:''" and host: "plain_host host"
    and P: "P \<noteq> []" "hd P = CHR ''/''" "plain_path P" and pq: "plain_opt q"
    by (auto simp: plain_parts_def P_def plain_path_def path_char_def)
  have c': "c = strip_trailing_slash (serial proto host P q None)" using c by (simp add: P_def)
  show ?thesis
  proof (cases q)
    case (Some qs)
    show ?thesis
    proof (cases "qs \<noteq> [] \<and> last qs = CHR ''/''")
      case True
      then have "c = serial proto host P (Some (butlast qs)) None"
        using c' Some by (simp add: strip_trailing_slash_def serial_def opt_part_def butlast_append)
      moreover have "plain_parts proto host P (Some (butlast qs)) None"
        using proto host P pq Some
        by (auto simp: plain_parts_def plain_opt_def list_all_iff dest: in_set_butlastD)
      ultimately show ?thesis using normalizeUrl_serial P by simp
    next
      case False
      then have "c = serial proto host P q None"
        using c' Some by (auto simp: strip_trailing_slash_def serial_def opt_part_def)
      moreover have "plain_parts proto host P q None"
        using proto host P pq by (simp add: plain_parts_def plain_opt_def)
      ultimately show ?thesis using normalizeUrl_serial P by simp
    qed
  next
    case None
    show ?thesis
    proof (cases "last P = CHR ''/''")
      case True
      then have cb: "c = serial proto host (butlast P) None None"
        using c' None P by (simp add: strip_trailing_slash_def serial_def opt_part_def butlast_append)
      have pb: "plain_parts proto host (butlast P) None None"
      proof -
        have "butlast P = [] \<or> hd (butlast P) = CHR ''/''"
          using P by (cases P; cases "tl P") auto
        then show ?thesis
          using proto host P by (simp add: plain_parts_def plain_opt_def plain_path_butlast)
      qed
      show ?thesis
      proof (cases "butlast P = []")
        case True
        with cb have ch: "c = proto @ ''//'' @ host" by (simp add: serial_def opt_part_def)
        have "strip_trailing_slash c = c"
          using plain_host_last [OF host] plain_host_nonempty [OF host] ch
          by (simp add: strip_trailing_slash_def)
        moreover have "normalizeUrl plain_urls c = Some (strip_trailing_slash (serial proto host ''/'' None None))"
          using normalizeUrl_serial [OF pb] cb True by simp
        moreover have "strip_trailing_slash (serial proto host ''/'' None None) = c"
        proof -
          have "serial proto host ''/'' None None = c @ ''/''"
            using ch by (simp add: serial_def opt_part_def)
          then show ?thesis by (simp add: strip_trailing_slash_def)
        qed
        ultimately show ?thesis by simp
      next
        case False
        with normalizeUrl_serial [OF pb] cb show ?thesis by simp
      qed
    next
      case False
      then have "c = serial proto host P None None"
        using c' None P by (simp add: strip_trailing_slash_def serial_def opt_part_def)
      moreover have "plain_parts proto host P None None"
        using proto host P by (simp add: plain_parts_def plain_opt_def)
      ultimately show ?thesis using normalizeUrl_serial P by simp
    qed
  qed
qed

lemma canonical_with_fragment:
  assumes "normalizeUrl plain_urls u = Some c" and "CHR ''#'' \<notin> set u" and "list_all query_char f"
  shows "normalizeUrl plain_urls (u @ CHR ''#'' # f) = Some c"
proof -
  from normalizeUrl_decomp [OF assms(1)] obtain proto host path q fr where
    u: "u = serial proto host path q fr" and pp: "plain_parts proto host path q fr"
    and c: "c = strip_trailing_slash (serial proto host (if path = [] then ''/'' else path) q None)"
    by blast
  from u assms(2) have fr: "fr = None" by (cases fr) (auto simp: serial_def opt_part_def)
  have "u @ CHR ''#'' # f = serial proto host path q (Some f)"
    using u fr by (simp add: serial_def opt_part_def)
  moreover have "plain_parts proto host path q (Some f)"
    using pp assms(3) by (simp add: plain_parts_def plain_opt_def)
  ultimately show ?thesis using normalizeUrl_serial c by simp
qed

lemma canonical_with_slash:
  assumes "normalizeUrl plain_urls u = Some c" and "last u \<noteq> CHR ''/''"
  shows "normalizeUrl plain_urls (u @ ''/'') = Some c"
proof -
  from normalizeUrl_decomp [OF assms(1)] obtain proto host path q fr where
    u: "u = serial proto host path q fr" and pp: "plain_parts proto host path q fr"
    and c: "c = strip_trailing_slash (serial proto host (if path = [] then ''/'' else path) q None)"
    by blast
  define P where "P = (if path = [] then ''/'' else path)"
  from pp have proto: "proto = ''https:'' \<or> proto = ''http:''" and host: "plain_host host"
    and path: "path = [] \<or> hd path = CHR ''/''" "plain_path path"
    and pq: "plain_opt q" and pf: "plain_opt fr"
    by (auto simp: plain_parts_def)
  have slash: "query_char CHR ''/''" by (simp add: query_char_def path_char_def)
  show ?thesis
  proof (cases fr)
    case (Some f)
    have "u @ ''/'' = serial proto host path q (Some (f @ ''/''))"
      using u Some by (simp add: serial_def opt_part_def)
    moreover have "plain_parts proto host path q (Some (f @ ''/''))"
      using pp Some slash by (simp add: plain_parts_def plain_opt_def)
    ultimately show ?thesis using normalizeUrl_serial c by simp
  next
    case None
    note fr = None
    show ?thesis
    proof (cases q)
      case (Some qs)
      have "u @ ''/'' = serial proto host path (Some (qs @ ''/'')) None"
        using u fr Some by (simp add: serial_def opt_part_def)
      moreover have "plain_parts proto host path (Some (qs @ ''/'')) None"
        using pp Some slash by (simp add: plain_parts_def plain_opt_def)
      ultimately have "normalizeUrl plain_urls (u @ ''/'')
          = Some (strip_trailing_slash (serial proto host P (Some (qs @ ''/'')) None))"
        using normalizeUrl_serial by (simp add: P_def)
      moreover have "serial proto host P (Some (qs @ ''/'')) None = serial proto host P (Some qs) None @ ''/''"
        by (simp add: serial_def opt_part_def)
      moreover have "last (serial proto host P (Some qs) None) \<noteq> CHR ''/''"
        using assms(2) u fr Some by (simp add: serial_def opt_part_def)
      ultimately show ?thesis
        using c Some by (simp add: strip_trailing_slash_def P_def)
    next
      case None
      note q = None
      show ?thesis
      proof (cases "path = []")
        case True
        have "u @ ''/'' = serial proto host ''/'' None None"
          using u fr q True by (simp add: serial_def opt_part_def)
        moreover have "plain_parts proto host ''/'' None None"
          using proto host by (simp add: plain_parts_def plain_opt_def plain_path_def path_char_def)
        ultimately show ?thesis using normalizeUrl_serial c q True by simp
      next
        case False
        have "u @ ''/'' = serial proto host (path @ ''/'') None None"
          using u fr q by (simp add: serial_def opt_part_def)
        moreover have "plain_parts proto host (path @ ''/'') None None"
          using proto host path False by (auto simp: plain_parts_def plain_opt_def plain_path_slash)
        ultimately have "normalizeUrl plain_urls (u @ ''/'')
            = Some (strip_trailing_slash (serial proto host (path @ ''/'') None None))"
          using normalizeUrl_serial by simp
        moreover have "serial proto host (path @ ''/'') None None = serial proto host path None None @ ''/''"
          by (simp add: serial_def opt_part_def)
        moreover have "last (serial proto host path None None) \<noteq> CHR ''/''"
          using assms(2) u fr q by simp
        ultimately show ?thesis
          using c q False by (simp add: strip_trailing_slash_def)
      qed
    qed
  qed
qed

lemma canonical_nonempty: "normalizeUrl plain_urls u = Some c \<Longrightarrow> c \<noteq> [] \<and> prefix ''http'' c"
proof -
  assume "normalizeUrl plain_urls u = Some c"
  from normalizeUrl_decomp [OF this] obtain proto host path q f where
    pp: "plain_parts proto host path q f"
    and c: "c = strip_trailing_slash (serial proto host (if path = [] then ''/'' else path) q None)"
    by blast
  from pp have "proto = ''https:'' \<or> proto = ''http:''" and "plain_host host"
    by (auto simp: plain_parts_def)
  then obtain r where "serial proto host (if path = [] then ''/'' else path) q None = ''http'' @ r @ ''//'' @ host @ (if path = [] then ''/'' else path) @ opt_part CHR ''?'' q"
    by (auto simp: serial_def opt_part_def)
  then obtain r' where s: "serial proto host (if path = [] then ''/'' else path) q None = ''http'' @ r' \<and> r' \<noteq> []"
    by (metis append_is_Nil_conv list.distinct(1) append.assoc)
  then have "strip_trailing_slash (serial proto host (if path = [] then ''/'' else path) q None) = ''http'' @ butlast r'
      \<or> strip_trailing_slash (serial proto host (if path = [] then ''/'' else path) q None) = ''http'' @ r'"
    by (auto simp: strip_trailing_slash_def butlast_append)
  with c show ?thesis by (auto simp: prefix_def)
qed

text \<open>
  Claim C7, as the code has it. Let \<open>c\<close> be the canonical form of a plain address
  \<open>u\<close>. The canonical form of \<open>c\<close> is \<open>c\<close> without one trailing slash, so \<open>c\<close> is its
  own canonical form exactly when it does not end in a slash; the same holds for
  \<open>normalizeUrlForCompare\<close>. Appending a fragment to an address without one, or a slash
  to an address that does not end in one, does not change the canonical form.
\<close>

theorem canonical_form_properties:
  assumes "normalizeUrl plain_urls u = Some c"
  shows "normalizeUrl plain_urls c = Some (strip_trailing_slash c)
       \<and> (normalizeUrl plain_urls c = Some c) = (last c \<noteq> CHR ''/'')
       \<and> (normalizeUrlForCompare plain_urls c = c) = (last c \<noteq> CHR ''/'')
       \<and> (CHR ''#'' \<notin> set u \<and> list_all query_char f \<longrightarrow> normalizeUrl plain_urls (u @ CHR ''#'' # f) = Some c)
       \<and> (last u \<noteq> CHR ''/'' \<longrightarrow> normalizeUrl plain_urls (u @ ''/'') = Some c)"
proof -
  note again = canonical_again [OF assms]
  from canonical_nonempty [OF assms] have ne: "c \<noteq> []" and http: "prefix ''http'' c" by simp_all
  have fixed: "(normalizeUrl plain_urls c = Some c) = (last c \<noteq> CHR ''/'')"
    using again strip_trailing_slash_fixed [OF ne] by simp
  have "normalizeUrlForCompare plain_urls c = strip_trailing_slash c"
    using again http by (simp add: normalizeUrlForCompare_def with_scheme_def)
  then have cmp: "(normalizeUrlForCompare plain_urls c = c) = (last c \<noteq> CHR ''/'')"
    using strip_trailing_slash_fixed [OF ne] by simp
  from again fixed cmp canonical_with_fragment [OF assms] canonical_with_slash [OF assms]
  show ?thesis by blast
qed

theorem canonical_form_properties_witness:
  "normalizeUrl plain_urls ''https://example.edu/docs'' = Some ''https://example.edu/docs''
   \<and> last ''https://example.edu/docs'' \<noteq> CHR ''/''
   \<and> normalizeUrlForCompare plain_urls ''https://example.edu/docs'' = ''https://example.edu/docs''
   \<and> CHR ''#'' \<notin> set ''https://example.edu/docs'' \<and> list_all query_char ''top''
   \<and> normalizeUrl plain_urls (''https://example.edu/docs'' @ CHR ''#'' # ''top'') = Some ''https://example.edu/docs''
   \<and> normalizeUrl plain_urls (''https://example.edu/docs'' @ ''/'') = Some ''https://example.edu/docs''"
proof -
  have n: "normalizeUrl plain_urls ''https://example.edu/docs'' = Some ''https://example.edu/docs''"
    by code_simp
  have l: "last ''https://example.edu/docs'' \<noteq> CHR ''/''" by simp
  have h: "CHR ''#'' \<notin> set ''https://example.edu/docs''" by simp
  have q: "list_all query_char ''top''" by code_simp
  from canonical_form_properties [OF n, of "''top''"] n l h q
  show ?thesis by simp
qed

text \<open>
  The claim as the specification words it holds for every address. One slash is
  removed, not every slash: for an address that ends in two slashes the canonical form
  still ends in a slash, and canonicalising it again removes that one.
\<close>

theorem canonical_form_not_idempotent_counterexample:
  "normalizeUrl plain_urls ''https://example.edu/a//'' = Some ''https://example.edu/a/''
   \<and> normalizeUrl plain_urls ''https://example.edu/a/'' = Some ''https://example.edu/a''
   \<and> normalizeUrlForCompare plain_urls ''https://example.edu/a//'' = ''https://example.edu/a/''
   \<and> normalizeUrlForCompare plain_urls ''https://example.edu/a/'' = ''https://example.edu/a''"
  by code_simp


section \<open>Properties of the reference detector\<close>

subsection \<open>Matches of the direct rule and the first loop\<close>

declare cougar_loop.simps [simp del]
declare colleague_loop.simps [simp del]

lemma ci_prefix_nth:
  assumes "ci_prefix p (drop i s)" and "m < length p"
  shows "i + m < length s \<and> lower_ascii (s ! (i + m)) = lower_ascii (p ! m)"
proof -
  from assms(1) have len: "length p \<le> length (drop i s)"
    and eq: "map lower_ascii (take (length p) (drop i s)) = map lower_ascii p"
    by (simp_all add: ci_prefix_def)
  from len assms(2) have b: "i + m < length s" by simp
  from eq have "map lower_ascii (take (length p) (drop i s)) ! m = map lower_ascii p ! m" by simp
  with assms(2) len b have "lower_ascii (s ! (i + m)) = lower_ascii (p ! m)" by simp
  with b show ?thesis by simp
qed

lemma lower_ascii_simps:
  "lower_ascii CHR ''c'' = CHR ''c''" "lower_ascii CHR ''o'' = CHR ''o''"
  "lower_ascii CHR ''u'' = CHR ''u''" "lower_ascii CHR ''g'' = CHR ''g''"
  "lower_ascii CHR ''a'' = CHR ''a''" "lower_ascii CHR ''r'' = CHR ''r''"
  "lower_ascii CHR ''w'' = CHR ''w''" "lower_ascii CHR ''e'' = CHR ''e''"
  "lower_ascii CHR ''b'' = CHR ''b''" "lower_ascii CHR ''l'' = CHR ''l''"
  by (simp_all add: lower_ascii_def upper_chars_def lower_chars_def)

lemma lower_ascii_space: "is_space c \<Longrightarrow> lower_ascii c \<noteq> CHR ''c''"
  by (auto simp: is_space_def lower_ascii_def upper_chars_def lower_chars_def)

lemma ci_prefix_append:
  "ci_prefix (p @ q) s = (ci_prefix p s \<and> ci_prefix q (drop (length p) s))"
proof (cases "length p + length q \<le> length s")
  case True
  have "take (length p + length q) s = take (length p) s @ take (length q) (drop (length p) s)"
    by (simp add: take_add)
  moreover have "length (take (length p) s) = length p" using True by simp
  ultimately show ?thesis using True by (auto simp: ci_prefix_def)
next
  case False
  then show ?thesis by (auto simp: ci_prefix_def)
qed

lemma find_SomeD: "find P xs = Some x \<Longrightarrow> x \<in> set xs \<and> P x"
  by (induction xs) (auto split: if_splits)

lemma find_NoneD: "find P xs = None \<Longrightarrow> x \<in> set xs \<Longrightarrow> \<not> P x"
  by (induction xs) (auto split: if_splits)

text \<open>The shape of a match of the direct rule.\<close>

lemma cougar_at_shape:
  assumes "cougar_at s i = Some n"
  shows "\<exists>k. n = 9 + k \<and> boundary s i \<and> ci_prefix ''cougar'' (drop i s)
           \<and> (\<forall>j < k. is_space (s ! (i + 6 + j)))
           \<and> ci_prefix ''web'' (drop (i + 6 + k) s)"
proof -
  from assms have b: "boundary s i" by (auto simp: cougar_at_def split: if_splits)
  let ?ws = "takeWhile is_space (drop (i + 6) s)"
  let ?first = "if ci_prefix ''cougar'' (drop i s)
                then find (\<lambda>k. ci_prefix ''web'' (drop (i + 6 + k) s) \<and> boundary s (i + 6 + k + 3))
                       (rev [0..<Suc (length ?ws)])
                else None"
  show ?thesis
  proof (cases ?first)
    case (Some k)
    then have c: "ci_prefix ''cougar'' (drop i s)"
      and f: "find (\<lambda>k. ci_prefix ''web'' (drop (i + 6 + k) s) \<and> boundary s (i + 6 + k + 3))
                       (rev [0..<Suc (length ?ws)]) = Some k"
      by (auto split: if_splits)
    from find_SomeD [OF f] have k: "k \<le> length ?ws" and w: "ci_prefix ''web'' (drop (i + 6 + k) s)"
      by auto
    have sp: "is_space (s ! (i + 6 + j))" if "j < k" for j
    proof -
      from that k have j: "j < length ?ws" by simp
      have "?ws ! j \<in> set ?ws" using j by (rule nth_mem)
      then have "is_space (?ws ! j)" by (rule set_takeWhileD [THEN conjunct2])
      moreover have "?ws ! j = drop (i + 6) s ! j" using j by (rule takeWhile_nth)
      moreover have "j < length (drop (i + 6) s)"
        using j length_takeWhile_le [of is_space "drop (i + 6) s"] by linarith
      ultimately show ?thesis by (simp add: add.commute add.left_commute)
    qed
    from assms b Some have "n = 9 + k" by (simp add: cougar_at_def)
    with b c sp w show ?thesis by blast
  next
    case None
    with assms b have n: "n = 9" and cw: "ci_prefix ''cougarweb'' (drop i s)"
      by (auto simp: cougar_at_def split: if_splits)
    from cw have "ci_prefix (''cougar'' @ ''web'') (drop i s)" by simp
    then have "ci_prefix ''cougar'' (drop i s) \<and> ci_prefix ''web'' (drop (length ''cougar'') (drop i s))"
      by (simp only: ci_prefix_append)
    moreover have "drop (length ''cougar'') (drop i s) = drop (i + 6) s"
      by (simp add: eval_nat_numeral)
    ultimately have "ci_prefix ''cougar'' (drop i s)" and "ci_prefix ''web'' (drop (i + 6) s)"
      by simp_all
    with n b show ?thesis by (intro exI [of _ 0]) simp
  qed
qed


lemma find_upt_Some:
  assumes "find P [p..<n] = Some i"
  shows "p \<le> i \<and> i < n \<and> P i \<and> (\<forall>j. p \<le> j \<and> j < i \<longrightarrow> \<not> P j)"
proof -
  from assms obtain k where k: "k < length [p..<n]" and P: "P ([p..<n] ! k)"
    and i: "i = [p..<n] ! k" and first: "\<forall>j<k. \<not> P ([p..<n] ! j)"
    by (auto simp: find_Some_iff)
  from k i have ik: "i = p + k" and "i < n" by simp_all
  have "\<not> P j" if "p \<le> j" "j < i" for j
  proof -
    from that ik have "j - p < k" by simp
    with first have "\<not> P ([p..<n] ! (j - p))" by blast
    moreover from that ik k have "[p..<n] ! (j - p) = j" by simp
    ultimately show ?thesis by simp
  qed
  with P i ik \<open>i < n\<close> show ?thesis by auto
qed

lemma find_upt_None: "find P [p..<n] = None \<Longrightarrow> p \<le> j \<Longrightarrow> j < n \<Longrightarrow> \<not> P j"
  by (rule find_NoneD [where xs = "[p..<n]"]) simp_all

lemma cougar_at_first:
  assumes "cougar_at s j = Some n"
  shows "j < length s \<and> lower_ascii (s ! j) = CHR ''c''"
proof -
  from cougar_at_shape [OF assms] have "ci_prefix ''cougar'' (drop j s)" by blast
  from ci_prefix_nth [OF this, of 0] show ?thesis by (simp add: lower_ascii_simps)
qed

lemma cougar_at_inner:
  assumes "cougar_at s i = Some n" and "i < j" and "j < i + n"
  shows "lower_ascii (s ! j) \<noteq> CHR ''c''"
proof -
  from cougar_at_shape [OF assms(1)] obtain k where n: "n = 9 + k"
    and c: "ci_prefix ''cougar'' (drop i s)"
    and sp: "\<forall>j < k. is_space (s ! (i + 6 + j))"
    and w: "ci_prefix ''web'' (drop (i + 6 + k) s)"
    by blast
  define m where "m = j - i"
  from assms(2,3) n have j: "j = i + m" and m: "0 < m" "m < 9 + k" by (simp_all add: m_def)
  consider "m < 6" | "6 \<le> m" "m < 6 + k" | "6 + k \<le> m" by linarith
  then show ?thesis
  proof cases
    case 1
    with m consider "m = 1" | "m = 2" | "m = 3" | "m = 4" | "m = 5" by linarith
    then have "lower_ascii (s ! (i + m)) \<noteq> CHR ''c''"
      using ci_prefix_nth [OF c, of m] by cases (simp_all add: lower_ascii_simps)
    with j show ?thesis by simp
  next
    case 2
    then have "m - 6 < k" by simp
    with sp have "is_space (s ! (i + 6 + (m - 6)))" by blast
    with 2 j have "is_space (s ! j)" by simp
    then show ?thesis by (rule lower_ascii_space)
  next
    case 3
    define d where "d = m - (6 + k)"
    from 3 m have d: "m = 6 + k + d" "d < 3" by (simp_all add: d_def)
    have jd: "i + 6 + k + d = j" using j d by simp
    from d consider "d = 0" | "d = 1" | "d = 2" by linarith
    then have "lower_ascii (s ! (i + 6 + k + d)) \<noteq> CHR ''c''"
      using ci_prefix_nth [OF w, of d] by cases (simp_all add: lower_ascii_simps)
    with jd show ?thesis by simp
  qed
qed

lemma cougar_no_overlap:
  assumes "cougar_at s i = Some n" and "i < j" and "j < i + n"
  shows "cougar_at s j = None"
proof (cases "cougar_at s j")
  case None
  then show ?thesis .
next
  case (Some m)
  from cougar_at_first [OF Some] cougar_at_inner [OF assms] show ?thesis by simp
qed

lemma colleague_not_cougar:
  assumes "colleague_at s i"
  shows "cougar_at s i = None"
proof (cases "cougar_at s i")
  case None
  then show ?thesis .
next
  case (Some n)
  from cougar_at_shape [OF Some] have "ci_prefix ''cougar'' (drop i s)" by blast
  from ci_prefix_nth [OF this, of 2] have "lower_ascii (s ! (i + 2)) = CHR ''u''"
    by (simp add: lower_ascii_simps)
  moreover from assms have "ci_prefix ''colleague'' (drop i s)" by (simp add: colleague_at_def)
  from ci_prefix_nth [OF this, of 2] have "lower_ascii (s ! (i + 2)) = CHR ''l''"
    by (simp add: lower_ascii_simps)
  ultimately show ?thesis by simp
qed

lemma cougar_exec_Some:
  assumes "cougar_exec s p = Some (idx, n)"
  shows "p \<le> idx \<and> cougar_at s idx = Some n \<and> (\<forall>j. p \<le> j \<and> j < idx \<longrightarrow> cougar_at s j = None)"
proof -
  from assms obtain i where f: "find (\<lambda>i. cougar_at s i \<noteq> None) [p..<length s] = Some i"
    and c: "cougar_at s i = Some n" and i: "i = idx"
    by (auto simp: cougar_exec_def split: option.splits)
  from find_upt_Some [OF f] c i show ?thesis by auto
qed

lemma cougar_exec_None:
  assumes "cougar_exec s p = None" and "p \<le> j"
  shows "cougar_at s j = None"
proof (cases "cougar_at s j")
  case None
  then show ?thesis .
next
  case (Some n)
  from cougar_at_first [OF Some] have j: "j < length s" by simp
  from assms(1) have "find (\<lambda>i. cougar_at s i \<noteq> None) [p..<length s] = None"
    by (auto simp: cougar_exec_def split: option.splits dest: find_SomeD)
  from find_upt_None [OF this assms(2) j] Some show ?thesis by simp
qed

lemma push_snippet_keeps: "r \<in> set results \<Longrightarrow> r \<in> set (push_snippet results snip idx)"
  by (simp add: push_snippet_def)

lemma push_snippet_has:
  "20 < length snip \<Longrightarrow> \<exists>r \<in> set (push_snippet results snip idx). snippet r = snip"
  by (auto simp: push_snippet_def list_ex_iff)

lemma cougar_loop_keeps: "r \<in> set results \<Longrightarrow> r \<in> set (cougar_loop s p results)"
proof (induction s p results rule: cougar_loop.induct)
  case (1 normalized lastIndex results)
  show ?case
  proof (cases "cougar_exec normalized lastIndex")
    case None
    with 1 show ?thesis by (simp add: cougar_loop.simps)
  next
    case (Some a)
    obtain idx n where a: "a = (idx, n)" by (cases a)
    from "1.IH" [OF Some a [symmetric] push_snippet_keeps [OF "1.prems"]] Some a
    show ?thesis by (simp add: cougar_loop.simps [of normalized lastIndex])
  qed
qed

lemma colleague_loop_keeps: "r \<in> set results \<Longrightarrow> r \<in> set (colleague_loop s p results)"
proof (induction s p results rule: colleague_loop.induct)
  case (1 normalized lastIndex results)
  show ?case
  proof (cases "colleague_exec normalized lastIndex")
    case None
    with 1 show ?thesis by (simp add: colleague_loop.simps)
  next
    case (Some a)
    obtain idx n where a: "a = (idx, n)" by (cases a)
    have "r \<in> set (let window = colleague_window normalized idx in
             if COLLEGUE_SYSTEM_WORDS_test window
             then push_snippet results (trim (collapse_spaces window)) idx
             else results)"
      using "1.prems" by (simp add: Let_def push_snippet_keeps)
    from "1.IH" [OF Some a [symmetric] this] Some a
    show ?thesis by (simp add: colleague_loop.simps [of normalized lastIndex])
  qed
qed

lemma cougar_loop_has:
  "\<exists>r \<in> set results. snippet r = x \<Longrightarrow> \<exists>r \<in> set (cougar_loop s p results). snippet r = x"
  by (blast intro: cougar_loop_keeps)

lemma cougar_loop_finds:
  assumes "cougar_at s i = Some n" and "p \<le> i" and "20 < length (cougar_snippet s i)"
  shows "\<exists>r \<in> set (cougar_loop s p results). snippet r = cougar_snippet s i"
  using assms
proof (induction s p results rule: cougar_loop.induct)
  case (1 normalized lastIndex results)
  note c = "1.prems"(1) and le = "1.prems"(2) and long = "1.prems"(3)
  show ?case
  proof (cases "cougar_exec normalized lastIndex")
    case None
    from cougar_exec_None [OF None le] c show ?thesis by simp
  next
    case (Some a)
    obtain idx m where a: "a = (idx, m)" by (cases a)
    from Some a have ex: "cougar_exec normalized lastIndex = Some (idx, m)" by simp
    from cougar_exec_Some [OF ex] have at: "cougar_at normalized idx = Some m"
      and first: "\<forall>j. lastIndex \<le> j \<and> j < idx \<longrightarrow> cougar_at normalized j = None"
      by simp_all
    let ?results' = "push_snippet results (cougar_snippet normalized idx) idx"
    have unfold: "cougar_loop normalized lastIndex results = cougar_loop normalized (idx + m) ?results'"
      using ex by (simp add: cougar_loop.simps [of normalized lastIndex])
    from first le c have "idx \<le> i" by (metis not_le option.distinct(1))
    then consider "i = idx" | "idx < i" by linarith
    then show ?thesis
    proof cases
      case 1
      with push_snippet_has [OF long, of results i]
      have "\<exists>r \<in> set ?results'. snippet r = cougar_snippet normalized i" by simp
      from cougar_loop_has [OF this] unfold show ?thesis by simp
    next
      case 2
      have "idx + m \<le> i"
      proof (rule ccontr)
        assume "\<not> idx + m \<le> i"
        with 2 cougar_no_overlap [OF at, of i] c show False by simp
      qed
      from "1.IH" [OF Some a [symmetric] c this long] unfold show ?thesis by simp
    qed
  qed
qed

lemma direct_match_found:
  assumes "cougar_at text i = Some n" and "20 < length (cougar_snippet text i)"
  shows "(\<exists>r \<in> set (findLegacySnippets html text). snippet r = cougar_snippet text i)
         \<and> findLegacySnippets html text \<noteq> []"
proof -
  from cougar_loop_finds [OF assms(1) _ assms(2), of 0 "[]"]
  obtain r where "r \<in> set (cougar_loop text 0 [])" and "snippet r = cougar_snippet text i"
    by auto
  then have "r \<in> set (findLegacySnippets html text)"
    by (simp add: findLegacySnippets_def colleague_loop_keeps)
  with \<open>snippet r = cougar_snippet text i\<close> show ?thesis by auto
qed

text \<open>
  A text that holds the name as a word matches the direct rule where the name starts:
  \<open>cougar\<close> in any letter case, white space or none, \<open>web\<close> in any letter case, with
  no word character right before or right after.
\<close>

lemma lower_ascii_letter:
  assumes "is_lower (lower_ascii x)"
  shows "is_lower x \<or> is_upper x"
proof (cases "map_of (zip upper_chars lower_chars) x")
  case None
  with assms show ?thesis by (simp add: lower_ascii_def)
next
  case (Some l)
  then have "(x, l) \<in> set (zip upper_chars lower_chars)" by (rule map_of_SomeD)
  then have "x \<in> set upper_chars" by (rule set_zip_leftD)
  then show ?thesis by (simp add: is_upper_def)
qed

lemma letter_not_space: "is_lower x \<or> is_upper x \<Longrightarrow> \<not> is_space x"
  by (auto simp: is_lower_def is_upper_def is_space_def lower_chars_def upper_chars_def)

lemma letter_word: "is_lower x \<or> is_upper x \<Longrightarrow> is_word_char x"
  by (auto simp: is_word_char_def)

lemma ci_letters:
  assumes "map lower_ascii w = p" and "list_all is_lower p" and "k < length w"
  shows "is_word_char (w ! k) \<and> \<not> is_space (w ! k)"
proof -
  from assms(1,3) have "lower_ascii (w ! k) = p ! k" and "k < length p" by auto
  with assms(2) have "is_lower (lower_ascii (w ! k))" by (simp add: list_all_length)
  from lower_ascii_letter [OF this] show ?thesis by (simp add: letter_not_space letter_word)
qed

lemma ci_prefix_here: "map lower_ascii w = p \<Longrightarrow> map lower_ascii p = p \<Longrightarrow> ci_prefix p (w @ r)"
  by (auto simp: ci_prefix_def)

lemma takeWhile_all: "list_all P xs \<Longrightarrow> ys = [] \<or> \<not> P (hd ys) \<Longrightarrow> takeWhile P (xs @ ys) = xs"
  by (induction xs) (auto simp: takeWhile_eq_Nil_iff)

lemma cougar_at_intro:
  assumes t: "s = a @ c1 @ ws @ c2 @ b"
    and c1: "map lower_ascii c1 = ''cougar''" and ws: "list_all is_space ws"
    and c2: "map lower_ascii c2 = ''web''"
    and a: "a = [] \<or> \<not> is_word_char (last a)" and b: "b = [] \<or> \<not> is_word_char (hd b)"
  shows "cougar_at s (length a) = Some (9 + length ws)"
proof -
  let ?i = "length a"
  let ?k = "length ws"
  from c1 have "length (map lower_ascii c1) = length ''cougar''" by (simp only:)
  then have l1: "length c1 = 6" by simp
  from c2 have "length (map lower_ascii c2) = length ''web''" by (simp only:)
  then have l2: "length c2 = 3" by simp
  have low1: "list_all is_lower ''cougar''" and low2: "list_all is_lower ''web''"
    by (simp_all add: is_lower_def lower_chars_def)
  have id1: "map lower_ascii ''cougar'' = ''cougar''" and id2: "map lower_ascii ''web'' = ''web''"
    by (simp_all add: lower_ascii_def upper_chars_def lower_chars_def)
  \<comment> \<open>the boundary in front\<close>
  have "s ! ?i = c1 ! 0" using t l1 by (simp add: nth_append)
  moreover have "is_word_char (c1 ! 0)" using ci_letters [OF c1 low1, of 0] l1 by simp
  ultimately have "word_at s ?i" using t l1 by (simp add: word_at_def)
  moreover have "\<not> (0 < ?i \<and> word_at s (?i - 1))"
  proof (cases "a = []")
    case True
    then show ?thesis by simp
  next
    case False
    with a have "\<not> is_word_char (last a)" by simp
    moreover have "s ! (?i - 1) = last a" using False t by (simp add: nth_append last_conv_nth)
    ultimately show ?thesis by (simp add: word_at_def)
  qed
  ultimately have b1: "boundary s ?i" by (simp add: boundary_def)
  \<comment> \<open>the name and the white space\<close>
  have d0: "drop ?i s = c1 @ ws @ c2 @ b" using t by simp
  have p1: "ci_prefix ''cougar'' (drop ?i s)" unfolding d0 by (rule ci_prefix_here [OF c1 id1])
  have d1: "drop (?i + 6) s = ws @ c2 @ b" using t l1 by simp
  have "\<not> is_space (hd (c2 @ b))" using ci_letters [OF c2 low2, of 0] l2 by (cases c2) auto
  then have tw: "takeWhile is_space (drop (?i + 6) s) = ws"
    unfolding d1 by (intro takeWhile_all [OF ws]) simp
  have d2: "drop (?i + 6 + ?k) s = c2 @ b" using t l1 by simp
  have p2: "ci_prefix ''web'' (drop (?i + 6 + ?k) s)" unfolding d2 by (rule ci_prefix_here [OF c2 id2])
  \<comment> \<open>the boundary behind\<close>
  let ?e = "?i + 6 + ?k + 3"
  have "s ! (?e - 1) = c2 ! 2" using t l1 l2 by (simp add: nth_append)
  moreover have "is_word_char (c2 ! 2)" using ci_letters [OF c2 low2, of 2] l2 by simp
  ultimately have before: "0 < ?e \<and> word_at s (?e - 1)" using t l1 l2 by (simp add: word_at_def)
  have after: "\<not> word_at s ?e"
  proof (cases "b = []")
    case True
    with t l1 l2 show ?thesis by (simp add: word_at_def)
  next
    case False
    with b have "\<not> is_word_char (hd b)" by simp
    moreover have "s ! ?e = hd b" using False t l1 l2 by (simp add: nth_append hd_conv_nth)
    ultimately show ?thesis by (simp add: word_at_def)
  qed
  from before after have b2: "boundary s ?e" by (simp only: boundary_def) simp
  have "find (\<lambda>k. ci_prefix ''web'' (drop (?i + 6 + k) s) \<and> boundary s (?i + 6 + k + 3))
          (rev [0..<Suc ?k]) = Some ?k"
    using p2 b2 by simp
  then show ?thesis
    using b1 p1 tw by (simp add: cougar_at_def)
qed

text \<open>
  Claim C5, as the code has it. The direct rule matches where the product name stands
  as a word. For every match whose context snippet (collapsed and trimmed) is longer
  than 20 characters, the result holds a snippet with that text, so the result is not
  empty. A match with a shorter snippet adds nothing, and neither does a match whose
  snippet text is already there.
\<close>

theorem direct_match_snippet_is_returned:
  "(text = a @ c1 @ ws @ c2 @ b \<and> map lower_ascii c1 = ''cougar'' \<and> list_all is_space ws
      \<and> map lower_ascii c2 = ''web''
      \<and> (a = [] \<or> \<not> is_word_char (last a)) \<and> (b = [] \<or> \<not> is_word_char (hd b))
      \<longrightarrow> cougar_at text (length a) = Some (9 + length ws))
   \<and> (cougar_at text i = Some n \<and> 20 < length (cougar_snippet text i)
      \<longrightarrow> (\<exists>r \<in> set (findLegacySnippets html text). snippet r = cougar_snippet text i)
          \<and> findLegacySnippets html text \<noteq> [])"
  using cougar_at_intro [of "text" a c1 ws c2 b] direct_match_found [of "text" i n html]
  by blast

definition register_text :: string where
  "register_text = ''Log in to Cougar   Web to register for classes.''"

theorem direct_match_snippet_is_returned_witness:
  "register_text = ''Log in to '' @ ''Cougar'' @ ''   '' @ ''Web'' @ '' to register for classes.''
   \<and> map lower_ascii ''Cougar'' = ''cougar'' \<and> list_all is_space ''   '' \<and> map lower_ascii ''Web'' = ''web''
   \<and> \<not> is_word_char (last ''Log in to '') \<and> \<not> is_word_char (hd '' to register for classes.'')
   \<and> cougar_at register_text 10 = Some 12
   \<and> cougar_snippet register_text 10 = ''Log in to Cougar Web to register for classes.''
   \<and> 20 < length (cougar_snippet register_text 10)
   \<and> findLegacySnippets [] register_text
       = [\<lparr>snippet = ''Log in to Cougar Web to register for classes.'', offset = 10\<rparr>]
   \<and> findLegacySnippets [] register_text \<noteq> []"
proof -
  have t: "register_text = ''Log in to '' @ ''Cougar'' @ ''   '' @ ''Web'' @ '' to register for classes.''"
    by (simp add: register_text_def)
  have c1: "map lower_ascii ''Cougar'' = ''cougar''" and c2: "map lower_ascii ''Web'' = ''web''"
    by code_simp+
  have ws: "list_all is_space ''   ''" by code_simp
  have a: "\<not> is_word_char (last ''Log in to '')" and b: "\<not> is_word_char (hd '' to register for classes.'')"
    by code_simp+
  note T = direct_match_snippet_is_returned [of register_text "''Log in to ''" "''Cougar''" "''   ''"
      "''Web''" "'' to register for classes.''" 10 12 "[]"]
  from T t c1 c2 ws a b
  have "cougar_at register_text (length ''Log in to '') = Some (9 + length ''   '')" by blast
  moreover have "length ''Log in to '' = 10" and "9 + length ''   '' = (12::nat)" by simp_all
  ultimately have m: "cougar_at register_text 10 = Some 12" by (simp only:)
  have s: "cougar_snippet register_text 10 = ''Log in to Cougar Web to register for classes.''"
    by code_simp
  then have l: "20 < length (cougar_snippet register_text 10)" by simp
  from T m l have ne: "findLegacySnippets [] register_text \<noteq> []" by blast
  have r: "findLegacySnippets [] register_text
       = [\<lparr>snippet = ''Log in to Cougar Web to register for classes.'', offset = 10\<rparr>]"
    by code_simp
  from t c1 c2 ws a b m s l r ne show ?thesis by blast
qed

text \<open>
  The claim as the specification words it promises a snippet for every page that holds
  the name, and for every match. A match whose snippet has 20 characters or fewer is
  dropped, and the name inside a longer word is no match.
\<close>

theorem short_page_no_snippet_counterexample:
  "cougar_at ''Go to CougarWeb now.'' 6 = Some 9
   \<and> findLegacySnippets [] ''Go to CougarWeb now.'' = []
   \<and> findLegacySnippets [] ''Log in to MyCougarWebPortal to register for classes.'' = []"
  by code_simp

subsection \<open>The disambiguation rule and the second loop\<close>

definition accepted :: "string \<Rightarrow> found \<Rightarrow> bool" where
  "accepted s r =
     (cougar_at s (offset r) \<noteq> None
      \<or> (colleague_at s (offset r) \<and> COLLEGUE_SYSTEM_WORDS_test (colleague_window s (offset r))))"

lemma push_snippet_accepted:
  "list_all (accepted s) results \<Longrightarrow> accepted s \<lparr>snippet = snip, offset = idx\<rparr> \<Longrightarrow>
     list_all (accepted s) (push_snippet results snip idx)"
  by (simp add: push_snippet_def)

lemma cougar_loop_accepted:
  "list_all (accepted s) results \<Longrightarrow> list_all (accepted s) (cougar_loop s p results)"
proof (induction s p results rule: cougar_loop.induct)
  case (1 normalized lastIndex results)
  show ?case
  proof (cases "cougar_exec normalized lastIndex")
    case None
    with 1 show ?thesis by (simp add: cougar_loop.simps)
  next
    case (Some a)
    obtain idx n where a: "a = (idx, n)" by (cases a)
    from Some a have "cougar_at normalized idx = Some n" by (auto dest: cougar_exec_Some)
    then have "accepted normalized \<lparr>snippet = cougar_snippet normalized idx, offset = idx\<rparr>"
      by (simp add: accepted_def)
    from "1.IH" [OF Some a [symmetric] push_snippet_accepted [OF "1.prems" this]] Some a
    show ?thesis by (simp add: cougar_loop.simps [of normalized lastIndex])
  qed
qed

lemma colleague_loop_accepted:
  "list_all (accepted s) results \<Longrightarrow> list_all (accepted s) (colleague_loop s p results)"
proof (induction s p results rule: colleague_loop.induct)
  case (1 normalized lastIndex results)
  show ?case
  proof (cases "colleague_exec normalized lastIndex")
    case None
    with 1 show ?thesis by (simp add: colleague_loop.simps)
  next
    case (Some a)
    obtain idx n where a: "a = (idx, n)" by (cases a)
    from Some a have at: "colleague_at normalized idx" by (auto dest: colleague_exec_bounds)
    have "list_all (accepted normalized)
            (let window = colleague_window normalized idx in
             if COLLEGUE_SYSTEM_WORDS_test window
             then push_snippet results (trim (collapse_spaces window)) idx
             else results)"
    proof (cases "COLLEGUE_SYSTEM_WORDS_test (colleague_window normalized idx)")
      case True
      with at have "accepted normalized
          \<lparr>snippet = trim (collapse_spaces (colleague_window normalized idx)), offset = idx\<rparr>"
        by (simp add: accepted_def)
      from push_snippet_accepted [OF "1.prems" this] True show ?thesis by simp
    next
      case False
      with "1.prems" show ?thesis by simp
    qed
    from "1.IH" [OF Some a [symmetric] this] Some a
    show ?thesis by (simp add: colleague_loop.simps [of normalized lastIndex])
  qed
qed

lemma findLegacySnippets_accepted: "list_all (accepted text) (findLegacySnippets html text)"
  by (simp add: findLegacySnippets_def colleague_loop_accepted cougar_loop_accepted)

lemma unconfirmed_colleague_no_snippet:
  assumes "colleague_at text i" and "\<not> COLLEGUE_SYSTEM_WORDS_test (colleague_window text i)"
  shows "\<forall>r \<in> set (findLegacySnippets html text). offset r \<noteq> i"
proof
  fix r assume "r \<in> set (findLegacySnippets html text)"
  with findLegacySnippets_accepted [of "text" html] have "accepted text r" by (simp add: list_all_iff)
  with assms colleague_not_cougar [OF assms(1)] show "offset r \<noteq> i"
    by (auto simp: accepted_def)
qed

lemma find_all_None: "(\<And>x. x \<in> set xs \<Longrightarrow> \<not> P x) \<Longrightarrow> find P xs = None"
  by (induction xs) auto

lemma find_append_None: "find P xs = None \<Longrightarrow> find P (xs @ ys) = find P ys"
  by (induction xs) (auto split: if_splits)

lemma find_upt_first:
  assumes "P i" and "p \<le> i" and "i < n" and "\<And>j. p \<le> j \<Longrightarrow> j < i \<Longrightarrow> \<not> P j"
  shows "find P [p..<n] = Some i"
proof -
  have "[p..<n] = [p..<i] @ [i..<n]"
    using upt_add_eq_append [OF assms(2), of "n - i"] assms(3) by simp
  moreover have "[i..<n] = i # [Suc i..<n]"
    using assms(3) by (rule upt_conv_Cons)
  ultimately have "[p..<n] = [p..<i] @ i # [Suc i..<n]" by simp
  moreover have "find P ([p..<i] @ i # [Suc i..<n]) = Some i"
  proof -
    have "find P [p..<i] = None" by (rule find_all_None) (use assms(4) in auto)
    then show ?thesis using assms(1) by (simp add: find_append_None)
  qed
  ultimately show ?thesis by simp
qed

lemma no_cougar_loop:
  assumes "\<forall>j. cougar_at s j = None"
  shows "cougar_loop s p results = results"
proof -
  have "find (\<lambda>i. cougar_at s i \<noteq> None) [p..<length s] = None"
    by (rule find_all_None) (use assms in simp)
  then have "cougar_exec s p = None" by (simp add: cougar_exec_def)
  then show ?thesis by (simp add: cougar_loop.simps)
qed

lemma colleague_at_bound:
  assumes "colleague_at s i"
  shows "i + 9 \<le> length s"
proof -
  from assms have "ci_prefix ''colleague'' (drop i s)" by (simp add: colleague_at_def)
  from ci_prefix_nth [OF this, of 8] show ?thesis by simp
qed

lemma single_colleague_loop:
  assumes "colleague_at s i" and "\<forall>j. colleague_at s j \<longrightarrow> j = i"
  shows "colleague_loop s 0 results =
           (let window = colleague_window s i in
            if COLLEGUE_SYSTEM_WORDS_test window
            then push_snippet results (trim (collapse_spaces window)) i
            else results)"
proof -
  from colleague_at_bound [OF assms(1)] have i: "i < length s" by simp
  have "find (colleague_at s) [0..<length s] = Some i"
  proof (rule find_upt_first)
    show "colleague_at s i" by (rule assms(1))
    show "0 \<le> i" by simp
    show "i < length s" by (rule i)
    fix j assume "j < i"
    with assms(2) show "\<not> colleague_at s j" by blast
  qed
  then have first: "colleague_exec s 0 = Some (i, 9)" by (simp add: colleague_exec_def)
  have "find (colleague_at s) [i + 9..<length s] = None"
  proof (rule find_all_None)
    fix x assume "x \<in> set [i + 9..<length s]"
    then have "x \<noteq> i" by simp
    with assms(2) show "\<not> colleague_at s x" by blast
  qed
  then have rest: "colleague_exec s (i + 9) = None" by (simp add: colleague_exec_def)
  show ?thesis
    by (subst colleague_loop.simps, simp add: first, subst colleague_loop.simps, simp add: rest)
qed

lemma is_word_char_simps:
  "is_word_char CHR ''s''" "is_word_char CHR ''t''" "\<not> is_word_char CHR '' ''"
  by (simp_all add: is_word_char_def is_lower_def is_upper_def is_digit_def
        lower_chars_def upper_chars_def digit_chars_def)

lemma phrase_confirms:
  assumes "window = a @ ''student records system'' @ b"
    and "a = [] \<or> \<not> is_word_char (last a)"
  shows "COLLEGUE_SYSTEM_WORDS_test window"
proof -
  let ?i = "length a"
  have len: "?i < length window" using assms(1) by simp
  have at: "window ! (?i + k) = (''student records system'' @ b) ! k" for k
    using assms(1) by (simp add: nth_append)
  have before: "\<not> (0 < ?i \<and> word_at window (?i - 1))"
  proof (cases "a = []")
    case True
    then show ?thesis by simp
  next
    case False
    with assms(2) have "\<not> is_word_char (last a)" by simp
    moreover have "window ! (?i - 1) = last a"
      using False assms(1) by (simp add: nth_append last_conv_nth)
    ultimately show ?thesis by (simp add: word_at_def)
  qed
  have "word_at window ?i"
    using at [of 0] len by (simp add: word_at_def is_word_char_simps)
  with before have b1: "boundary window ?i" by (simp add: boundary_def)
  have w6: "word_at window (?i + 6)"
    using at [of 6] assms(1) by (simp add: word_at_def is_word_char_simps)
  have w7: "\<not> word_at window (?i + 7)"
    using at [of 7] by (simp add: word_at_def is_word_char_simps)
  have "?i + 7 - 1 = ?i + 6" by simp
  with w6 w7 have "boundary window (?i + 7)" by (simp only: boundary_def) simp
  moreover have "length ''student'' = 7" by simp
  ultimately have b2: "boundary window (?i + length ''student'')" by (simp only:)
  have "drop ?i window = ''student records system'' @ b" using assms(1) by simp
  then have p: "ci_prefix ''student'' (drop ?i window)" by (simp add: ci_prefix_def)
  have "''student'' \<in> set system_words" by (simp add: system_words_def)
  with p b2 have "list_ex (\<lambda>w. ci_prefix w (drop ?i window) \<and> boundary window (?i + length w)) system_words"
    unfolding list_ex_iff by blast
  with b1 have "system_word_at window ?i" by (simp add: system_word_at_def)
  with len show ?thesis
    unfolding COLLEGUE_SYSTEM_WORDS_test_def list_ex_iff by auto
qed

lemma dropWhile_before_kept:
  "\<not> P c \<Longrightarrow> dropWhile P (xs @ c # r) = dropWhile P xs @ c # r"
  by (induction xs) auto

lemma collapse_spaces_split:
  "\<not> is_space c \<Longrightarrow> collapse_spaces (a @ c # r) = collapse_spaces a @ collapse_spaces (c # r)"
proof (induction a rule: collapse_spaces.induct)
  case 1
  then show ?case by simp
next
  case (2 x xs)
  show ?case
  proof (cases "is_space x")
    case True
    with 2 show ?thesis by (simp add: dropWhile_before_kept)
  next
    case False
    with 2 show ?thesis by simp
  qed
qed

lemma is_space_simps:
  "is_space CHR '' ''" "\<not> is_space CHR ''s''" "\<not> is_space CHR ''t''" "\<not> is_space CHR ''u''"
  "\<not> is_space CHR ''d''" "\<not> is_space CHR ''e''" "\<not> is_space CHR ''n''" "\<not> is_space CHR ''r''"
  "\<not> is_space CHR ''c''" "\<not> is_space CHR ''o''" "\<not> is_space CHR ''y''" "\<not> is_space CHR ''m''"
  by (simp_all add: is_space_def)

lemma collapse_spaces_phrase:
  "collapse_spaces (''student records system'' @ b) = ''student records system'' @ collapse_spaces b"
  by (simp add: is_space_simps)

lemma dropWhile_keeps_part:
  "p \<noteq> [] \<Longrightarrow> \<not> P (hd p) \<Longrightarrow> \<exists>x'. dropWhile P (x @ p @ y) = x' @ p @ y"
proof (induction x)
  case Nil
  then show ?case by (cases p) (auto intro: exI [of _ "[]"])
next
  case (Cons c x)
  then show ?case by (cases "P c") (auto intro: exI [of _ "c # x"])
qed

lemma trim_keeps_part:
  assumes "p \<noteq> []" and "\<not> is_space (hd p)" and "\<not> is_space (last p)"
  shows "length p \<le> length (trim (x @ p @ y))"
proof -
  from dropWhile_keeps_part [where P = is_space, OF assms(1,2)] obtain x' where
    1: "dropWhile is_space (x @ p @ y) = x' @ p @ y" by blast
  have "rev p \<noteq> []" and "\<not> is_space (hd (rev p))"
    using assms by (simp_all add: hd_rev)
  from dropWhile_keeps_part [where P = is_space, OF this, of "rev y" "rev x'"] obtain y' where
    2: "dropWhile is_space (rev y @ rev p @ rev x') = y' @ rev p @ rev x'" by blast
  have "trim (x @ p @ y) = rev (y' @ rev p @ rev x')"
    using 1 2 by (simp add: trim_def)
  then show ?thesis by simp
qed

lemma phrase_snippet_long:
  "20 < length (trim (collapse_spaces (a @ ''student records system'' @ b)))"
proof -
  have "collapse_spaces (a @ ''student records system'' @ b)
        = collapse_spaces a @ ''student records system'' @ collapse_spaces b"
    using collapse_spaces_split [of "CHR ''s''" a "''tudent records system'' @ b"]
      collapse_spaces_phrase [of b]
    by (simp add: is_space_simps)
  moreover have "length ''student records system''
        \<le> length (trim (collapse_spaces a @ ''student records system'' @ collapse_spaces b))"
    by (rule trim_keeps_part) (simp_all add: is_space_simps)
  ultimately show ?thesis by simp
qed

text \<open>
  Claim C3, as the code has it. Let the word \<open>colleague\<close> stand at index \<open>i\<close> of a
  page text. When no system word is found in the window around it, no snippet of the
  result has the offset \<open>i\<close>. When it is the only match of the second rule, the first
  rule matches nowhere, and the window holds \<open>student records system\<close> with no word
  character right before it, the result is exactly one snippet: the collapsed and
  trimmed window, with offset \<open>i\<close>.
\<close>

theorem colleague_needs_system_word:
  assumes "colleague_at text i"
  shows "(\<not> COLLEGUE_SYSTEM_WORDS_test (colleague_window text i) \<longrightarrow>
            (\<forall>r \<in> set (findLegacySnippets html text). offset r \<noteq> i))
       \<and> ((\<forall>j. colleague_at text j \<longrightarrow> j = i) \<and> (\<forall>j. cougar_at text j = None)
            \<and> (\<exists>a b. colleague_window text i = a @ ''student records system'' @ b
                       \<and> (a = [] \<or> \<not> is_word_char (last a))) \<longrightarrow>
            findLegacySnippets html text
              = [\<lparr>snippet = trim (collapse_spaces (colleague_window text i)), offset = i\<rparr>])"
proof (intro conjI impI)
  assume "\<not> COLLEGUE_SYSTEM_WORDS_test (colleague_window text i)"
  with assms show "\<forall>r \<in> set (findLegacySnippets html text). offset r \<noteq> i"
    by (rule unconfirmed_colleague_no_snippet)
next
  assume h: "(\<forall>j. colleague_at text j \<longrightarrow> j = i) \<and> (\<forall>j. cougar_at text j = None)
            \<and> (\<exists>a b. colleague_window text i = a @ ''student records system'' @ b
                       \<and> (a = [] \<or> \<not> is_word_char (last a)))"
  then obtain a b where w: "colleague_window text i = a @ ''student records system'' @ b"
    and a: "a = [] \<or> \<not> is_word_char (last a)" by blast
  from h have single: "\<forall>j. colleague_at text j \<longrightarrow> j = i" and none: "\<forall>j. cougar_at text j = None"
    by blast+
  have test: "COLLEGUE_SYSTEM_WORDS_test (colleague_window text i)"
    using w a by (rule phrase_confirms)
  have long: "20 < length (trim (collapse_spaces (colleague_window text i)))"
    unfolding w by (rule phrase_snippet_long)
  have "findLegacySnippets html text = colleague_loop text 0 []"
    by (simp add: findLegacySnippets_def no_cougar_loop [OF none])
  also have "\<dots> = push_snippet [] (trim (collapse_spaces (colleague_window text i))) i"
    using single_colleague_loop [OF assms single, of "[]"] test by (simp add: Let_def)
  also have "\<dots> = [\<lparr>snippet = trim (collapse_spaces (colleague_window text i)), offset = i\<rparr>]"
    using long by (simp add: push_snippet_def)
  finally show "findLegacySnippets html text
              = [\<lparr>snippet = trim (collapse_spaces (colleague_window text i)), offset = i\<rparr>]" .
qed

definition enrol_text :: string where
  "enrol_text = ''Use Colleague, the student records system, to enrol.''"

definition lunch_text :: string where
  "lunch_text = ''Please consult your colleague about lunch.''"

theorem colleague_needs_system_word_witness:
  "colleague_at lunch_text 20
   \<and> \<not> COLLEGUE_SYSTEM_WORDS_test (colleague_window lunch_text 20)
   \<and> list_all (\<lambda>r. offset r \<noteq> 20) (findLegacySnippets [] lunch_text)
   \<and> colleague_at enrol_text 4
   \<and> list_all (\<lambda>j. colleague_at enrol_text j = (j = 4)) [0..<length enrol_text]
   \<and> list_all (\<lambda>j. cougar_at enrol_text j = None) [0..<length enrol_text]
   \<and> colleague_window enrol_text 4 = ''Use Colleague, the '' @ ''student records system'' @ '', to enrol.''
   \<and> \<not> is_word_char (last ''Use Colleague, the '')
   \<and> findLegacySnippets [] enrol_text
       = [\<lparr>snippet = ''Use Colleague, the student records system, to enrol.'', offset = 4\<rparr>]"
proof -
  have l1: "colleague_at lunch_text 20" by code_simp
  have l2: "\<not> COLLEGUE_SYSTEM_WORDS_test (colleague_window lunch_text 20)" by code_simp
  from colleague_needs_system_word [OF l1, of "[]"] l2
  have l3: "list_all (\<lambda>r. offset r \<noteq> 20) (findLegacySnippets [] lunch_text)"
    by (simp add: list_all_iff)
  have e1: "colleague_at enrol_text 4" by code_simp
  have e2: "list_all (\<lambda>j. colleague_at enrol_text j = (j = 4)) [0..<length enrol_text]" by code_simp
  have e3: "list_all (\<lambda>j. cougar_at enrol_text j = None) [0..<length enrol_text]" by code_simp
  have e4: "colleague_window enrol_text 4 = ''Use Colleague, the '' @ ''student records system'' @ '', to enrol.''"
    by code_simp
  have e5: "\<not> is_word_char (last ''Use Colleague, the '')" by code_simp
  have single: "\<forall>j. colleague_at enrol_text j \<longrightarrow> j = 4"
  proof (intro allI impI)
    fix j assume c: "colleague_at enrol_text j"
    from colleague_at_bound [OF c] have "j \<in> set [0..<length enrol_text]" by simp
    with e2 c show "j = 4" by (simp add: list_all_iff)
  qed
  have none: "\<forall>j. cougar_at enrol_text j = None"
  proof
    fix j
    show "cougar_at enrol_text j = None"
    proof (cases "cougar_at enrol_text j")
      case None
      then show ?thesis .
    next
      case (Some n)
      from cougar_at_first [OF Some] have "j \<in> set [0..<length enrol_text]" by simp
      with e3 show ?thesis by (simp add: list_all_iff)
    qed
  qed
  have w: "\<exists>a b. colleague_window enrol_text 4 = a @ ''student records system'' @ b
             \<and> (a = [] \<or> \<not> is_word_char (last a))"
    using e4 e5 by blast
  have t: "trim (collapse_spaces (colleague_window enrol_text 4))
             = ''Use Colleague, the student records system, to enrol.''"
    by code_simp
  from colleague_needs_system_word [OF e1, of "[]"] single none w t
  have e6: "findLegacySnippets [] enrol_text
       = [\<lparr>snippet = ''Use Colleague, the student records system, to enrol.'', offset = 4\<rparr>]"
    by simp
  from l1 l2 l3 e1 e2 e3 e4 e5 e6 show ?thesis by blast
qed

text \<open>
  The claim as the specification words it counts the snippets of every page that holds
  one such occurrence. A page that also matches the first rule returns that snippet as
  well; and where the first rule has already given a snippet with the same text, the
  occurrence adds none of its own.
\<close>

theorem colleague_page_two_snippets_counterexample:
  "findLegacySnippets []
     ''Colleague is the student records system of the college. Staff sign in daily, and students use CougarWeb instead.''
     = [\<lparr>snippet = ''he student records system of the college. Staff sign in daily, and students use CougarWeb instead.'',
         offset = 94\<rparr>,
        \<lparr>snippet = ''Colleague is the student records system of the college. Staff sign in daily, and students use Cougar'',
         offset = 0\<rparr>]
   \<and> findLegacySnippets [] ''CougarWeb colleague student records system''
     = [\<lparr>snippet = ''CougarWeb colleague student records system'', offset = 0\<rparr>]"
  by code_simp

end
